theory Spec2Isabelle
  imports Main "HOL-Library.Word" "HOL-Library.Multiset"
begin

section \<open>The partitioner of \<open>main\<close> (ast_visitor_1/main.cpp, lines 143--158)\<close>

text \<open>
  \<open>main\<close> splits the source path list into \<open>kThreadsCount\<close> contiguous ranges.  The
  indices are C++ \<open>int\<close>s computed from \<open>static_cast<int>(sources.size())\<close>; the list
  comes from \<open>argv\<close>, whose length \<open>argc\<close> is itself an \<open>int\<close>, so every index below is
  at most the list length and no \<open>int\<close> operation overflows.  They are modelled as
  \<open>nat\<close>.  The worker count is a parameter \<open>K\<close> of the definitions; the program fixes
  it to \<open>kThreadsCount\<close>.
\<close>

definition kThreadsCount :: nat where
  "kThreadsCount = 4"

definition chunk_size :: "nat \<Rightarrow> 'a list \<Rightarrow> nat" where
  "chunk_size K sources = length sources div K"

definition begin_index :: "nat \<Rightarrow> 'a list \<Rightarrow> nat \<Rightarrow> nat" where
  "begin_index K sources i = i * chunk_size K sources"

definition end_index :: "nat \<Rightarrow> 'a list \<Rightarrow> nat \<Rightarrow> nat" where
  "end_index K sources i =
     (if i = K - 1 then length sources else (i + 1) * chunk_size K sources)"

text \<open>
  \<open>std::vector<std::string> vec(sources.begin() + begin_index, sources.begin() + end_index)\<close>:
  the elements at positions \<open>begin_index \<le> p < end_index\<close>.  For \<open>K \<ge> 1\<close> the two
  indices form a range inside the list (lemma \<open>shard_range_valid\<close> below), so the
  iterators are valid.
\<close>

definition vec_range :: "'a list \<Rightarrow> nat \<Rightarrow> nat \<Rightarrow> 'a list" where
  "vec_range xs b e = take (e - b) (drop b xs)"

definition shard :: "nat \<Rightarrow> 'a list \<Rightarrow> nat \<Rightarrow> 'a list" where
  "shard K sources i = vec_range sources (begin_index K sources i) (end_index K sources i)"

text \<open>The shards in the order of the loop counter \<open>i = 0, ..., K - 1\<close>.\<close>

definition shards :: "nat \<Rightarrow> 'a list \<Rightarrow> 'a list list" where
  "shards K sources = map (shard K sources) [0..<K]"


section \<open>The display name (\<open>MyAstConsumer::MyAstConsumer\<close>, lines 61--66)\<close>

text \<open>
  \<open>std::string::rfind\<close> returns a \<open>size_t\<close>: the last position of the character, or
  \<open>npos\<close> (all bits set) when it does not occur.  The constructor stores the result in an
  \<open>int\<close> (a narrowing that keeps the low 32 bits), converts that \<open>int\<close> back to \<open>size_t\<close>
  (sign extension) to compare it with \<open>npos\<close>, and passes \<open>last_slash_pos + 1\<close>,
  sign-extended again, to \<open>substr\<close>, which throws \<open>std::out_of_range\<close> when the position
  is beyond the end of the string.
\<close>

definition npos :: "64 word" where
  "npos = - 1"

fun last_index :: "char \<Rightarrow> string \<Rightarrow> nat option" where
  "last_index c [] = None"
| "last_index c (x # xs) =
     (case last_index c xs of
        Some p \<Rightarrow> Some (Suc p)
      | None \<Rightarrow> (if x = c then Some 0 else None))"

definition rfind :: "string \<Rightarrow> char \<Rightarrow> 64 word" where
  "rfind s c = (case last_index c s of None \<Rightarrow> npos | Some p \<Rightarrow> of_nat p)"

definition substr :: "string \<Rightarrow> 64 word \<Rightarrow> string option" where
  "substr s pos = (if length s < unat pos then None else Some (drop (unat pos) s))"

text \<open>The value of the member \<open>filename_\<close> after the constructor; \<open>None\<close> is the exception.\<close>

definition MyAstConsumer :: "string \<Rightarrow> string option" where
  "MyAstConsumer filename =
     (let last_slash_pos = (ucast (rfind filename CHR ''/'') :: 32 word)
      in if (scast last_slash_pos :: 64 word) \<noteq> npos
         then substr filename (scast (last_slash_pos + 1))
         else Some filename)"

text \<open>The spec's wording: the substring after the last \<open>'/'\<close>.\<close>

definition after_last_slash :: "string \<Rightarrow> string" where
  "after_last_slash s = rev (takeWhile (\<lambda>c. c \<noteq> CHR ''/'') (rev s))"

section \<open>What the program takes from outside\<close>

text \<open>
  A comparison that a sorting routine can order by: a strict weak order.  It is what
  \<open>std::sort\<close> requires of its comparator and what \<open>sort\<close> has in a collation.
\<close>

definition strict_weak_order :: "('a \<Rightarrow> 'a \<Rightarrow> bool) \<Rightarrow> bool" where
  "strict_weak_order lt =
     ((\<forall>a b. lt a b \<longrightarrow> \<not> lt b a)
      \<and> (\<forall>a b c. \<not> lt b a \<and> \<not> lt c b \<longrightarrow> \<not> lt c a))"

text \<open>
  Three things are library code or utilities, and are parameters of the model.
  \<open>ClangTool\<close>: \<open>visit src\<close> is the list of names the visitor has collected when
  \<open>HandleTranslationUnit\<close> is reached for the source \<open>src\<close>, or \<open>None\<close> when it is not
  reached, and \<open>run_status vec\<close> is the \<open>int\<close> that \<open>tool.run\<close> returns for the source
  list \<open>vec\<close>.  Both are taken as functions of their argument alone: what
  \<open>ClangTool\<close> does for a source is assumed not to depend on the other threads.  \<open>std::sort\<close>: \<open>std_sort lt xs\<close> is the vector after
  \<open>std::sort(xs.begin(), xs.end(), lt)\<close>.  The \<open>sort\<close> utility of the merge command
  orders lines by the collation of the locale it is started in: \<open>collate a b\<close> says that it
  puts the line \<open>a\<close> strictly before the line \<open>b\<close>.
\<close>

record environment =
  visit :: "string \<Rightarrow> string list option"
  run_status :: "string list \<Rightarrow> int"
  std_sort :: "(string \<Rightarrow> string \<Rightarrow> bool) \<Rightarrow> string list \<Rightarrow> string list"
  collate :: "string \<Rightarrow> string \<Rightarrow> bool"

text \<open>
  What the C++ standard says of \<open>std::sort\<close>: given a strict weak order, the result is a
  permutation of the input in which no element is followed by one that the comparison puts
  strictly before it.  The order among equivalent elements is unspecified (\<open>std::sort\<close> is
  not stable), so the model fixes no more than this.
\<close>

definition sort_contract :: "(('a \<Rightarrow> 'a \<Rightarrow> bool) \<Rightarrow> 'a list \<Rightarrow> 'a list) \<Rightarrow> bool" where
  "sort_contract f =
     (\<forall>lt xs. strict_weak_order lt \<longrightarrow>
        mset (f lt xs) = mset xs \<and> sorted_wrt (\<lambda>a b. \<not> lt b a) (f lt xs))"

text \<open>
  One sorting routine that meets the contract, an insertion sort.  It stands for
  \<open>std::sort\<close> in the example environments and is the line sorter of the merge command.
\<close>

fun insert_by :: "('a \<Rightarrow> 'a \<Rightarrow> bool) \<Rightarrow> 'a \<Rightarrow> 'a list \<Rightarrow> 'a list" where
  "insert_by lt x [] = [x]"
| "insert_by lt x (y # ys) = (if lt y x then y # insert_by lt x ys else x # y # ys)"

definition sort_by :: "('a \<Rightarrow> 'a \<Rightarrow> bool) \<Rightarrow> 'a list \<Rightarrow> 'a list" where
  "sort_by lt xs = foldr (insert_by lt) xs []"

section \<open>Normalising and writing one unit's names (\<open>flushToFile\<close>, lines 76--89)\<close>

text \<open>
  The comparator passes \<open>a[i]\<close>, a \<open>char\<close>, to \<open>std::tolower(int)\<close>.  On the x86-64
  targets of the tool \<open>char\<close> is signed, so bytes from 128 on are promoted to negative
  \<open>int\<close>s.  The program never calls \<open>setlocale\<close>, so \<open>tolower\<close> is that of the "C"
  locale of the C library (glibc): its table covers the arguments from \<open>-128\<close> to \<open>255\<close>;
  it maps \<open>'A'..'Z'\<close> to \<open>'a'..'z'\<close>, maps the negative arguments \<open>-128..-2\<close> (the
  bytes \<open>0x80..0xFE\<close> as a signed \<open>char\<close>) to the value of the byte, \<open>128..254\<close>, and
  leaves every other argument, \<open>EOF = -1\<close> among them, alone.
\<close>

definition char_to_int :: "char \<Rightarrow> int" where
  "char_to_int c = (let n = (of_char c :: int) in if n < 128 then n else n - 256)"

definition tolower :: "int \<Rightarrow> int" where
  "tolower c =
     (if 65 \<le> c \<and> c \<le> 90 then c + 32
      else if - 128 \<le> c \<and> c < - 1 then c + 256
      else c)"

text \<open>
  The lambda given to \<open>std::sort\<close>.  Its loop walks both strings from index 0 while both
  have a character left, and returns at the first position where the lower-cased
  characters differ; when one string runs out it compares the sizes.  The recursion below
  drops the common index from both strings, which keeps the order of the two sizes.
\<close>

fun names_less :: "string \<Rightarrow> string \<Rightarrow> bool" where
  "names_less [] b = (0 < length b)"
| "names_less (x # a) [] = False"
| "names_less (x # a) (y # b) =
     (if tolower (char_to_int x) \<noteq> tolower (char_to_int y)
      then tolower (char_to_int x) < tolower (char_to_int y)
      else names_less a b)"

text \<open>The vector \<open>names\<close> after the call of \<open>std::sort\<close> with the lambda.\<close>

definition std_sort_names :: "environment \<Rightarrow> string list \<Rightarrow> string list" where
  "std_sort_names env names = std_sort env names_less names"

definition newline :: char where
  "newline = CHR 0x0A"

text \<open>What \<open>flushToFile\<close> writes before the final newline, and all it writes to \<open>*out\<close>.\<close>

definition record_line :: "environment \<Rightarrow> string \<Rightarrow> string list \<Rightarrow> string" where
  "record_line env fname names =
     fname @ concat (map (\<lambda>n. '' '' @ n) (std_sort_names env names))"

definition flushToFile :: "environment \<Rightarrow> string \<Rightarrow> string list \<Rightarrow> string" where
  "flushToFile env fname names = record_line env fname names @ [newline]"

text \<open>The spec's comparator: case-insensitive lexicographic order, ties broken by length.\<close>

definition fold_case :: "string \<Rightarrow> int list" where
  "fold_case s = map (\<lambda>c. tolower (char_to_int c)) s"

definition ci_less :: "string \<Rightarrow> string \<Rightarrow> bool" where
  "ci_less a b =
     (ord_class.lexordp (fold_case a) (fold_case b)
      \<or> (fold_case a = fold_case b \<and> length a < length b))"

section \<open>One worker (\<open>run_tool\<close>, lines 125--131)\<close>

text \<open>Text written to the stream for one source; \<open>None\<close> when the constructor throws.\<close>

definition handle_unit :: "environment \<Rightarrow> string \<Rightarrow> string option" where
  "handle_unit env src =
     (case MyAstConsumer src of
        None \<Rightarrow> None
      | Some fname \<Rightarrow>
          Some (case visit env src of None \<Rightarrow> [] | Some names \<Rightarrow> flushToFile env fname names))"

text \<open>Everything one \<open>tool.run\<close> writes, for the sources of \<open>vec\<close> in their order.\<close>

fun tool_text :: "environment \<Rightarrow> string list \<Rightarrow> string option" where
  "tool_text env [] = Some []"
| "tool_text env (src # vec) =
     (case handle_unit env src of
        None \<Rightarrow> None
      | Some t \<Rightarrow> map_option (\<lambda>ts. t @ ts) (tool_text env vec))"

section \<open>The merge command (\<open>cat ... | sort > output.txt\<close>, lines 169--170)\<close>

text \<open>
  \<open>sort\<close> is an external utility.  It reads its input as lines ended by a newline (a last
  fragment without one is a line as well), orders them by the collation of its locale, and
  writes each line followed by a newline.  The program does not set the locale of the
  command.
\<close>

fun split_lines :: "string \<Rightarrow> string list" where
  "split_lines [] = []"
| "split_lines (c # cs) =
     (if c = newline then [] # split_lines cs
      else (case split_lines cs of [] \<Rightarrow> [[c]] | l # ls \<Rightarrow> (c # l) # ls))"

definition unlines :: "string list \<Rightarrow> string" where
  "unlines ls = concat (map (\<lambda>l. l @ [newline]) ls)"

definition unix_sort :: "(string \<Rightarrow> string \<Rightarrow> bool) \<Rightarrow> string \<Rightarrow> string" where
  "unix_sort lt input = unlines (sort_by lt (split_lines input))"

text \<open>\<open>cat\<close> of the files in the order of \<open>filenames_in_line\<close>, piped into \<open>sort\<close>.\<close>

definition cat_sort :: "(string \<Rightarrow> string \<Rightarrow> bool) \<Rightarrow> string list \<Rightarrow> string" where
  "cat_sort lt files = unix_sort lt (concat files)"

text \<open>
  The collation of the POSIX ("C") locale is byte-wise: unsigned bytes compared from the
  left, a proper prefix before its extensions.
\<close>

fun bytes_less :: "string \<Rightarrow> string \<Rightarrow> bool" where
  "bytes_less [] b = (b \<noteq> [])"
| "bytes_less (x # a) [] = False"
| "bytes_less (x # a) (y # b) =
     (if x \<noteq> y then (of_char x :: nat) < of_char y else bytes_less a b)"

definition bytes_le :: "string \<Rightarrow> string \<Rightarrow> bool" where
  "bytes_le a b = (\<not> bytes_less b a)"

text \<open>
  A collation that compares the letters without their case first and falls back on the
  bytes, as the dictionary collations of many locales do for letters.
\<close>

definition dictionary_less :: "string \<Rightarrow> string \<Rightarrow> bool" where
  "dictionary_less a b =
     (ord_class.lexordp (fold_case a) (fold_case b)
      \<or> (fold_case a = fold_case b \<and> bytes_less a b))"

section \<open>\<open>main\<close> and its threads (lines 133--172)\<close>

text \<open>
  A worker thread runs \<open>run_tool\<close> on its copy \<open>vec\<close> of a shard: the tool handles the
  sources one after the other (\<open>pending\<close> are those still to come), the text written so far
  is \<open>sink\<close> (the file \<open>threaded_output_i.txt\<close> of worker \<open>i\<close>; the files of different
  workers have different names), and when \<open>tool.run\<close> has returned the thread prints the
  status, flushes and ends (\<open>status\<close> becomes \<open>Some\<close>).  \<open>run_tool\<close> returns \<open>void\<close>: the
  status goes to the standard output only.
\<close>

record worker =
  vec :: "string list"
  pending :: "string list"
  sink :: string
  status :: "int option"

text \<open>
  The main thread is at the head of the spawn loop with counter \<open>i\<close>, at the head of the join
  loop about to join thread \<open>j\<close>, about to run the merge command, or has returned from
  \<open>main\<close> with an exit status.  \<open>Aborted\<close>: an exception left a thread and the process
  was terminated.
\<close>

datatype main_pc = Spawning nat | Joining nat | Merging | Returned int | Aborted

record state =
  pc :: main_pc
  workers :: "worker list"
  output_txt :: "string option"

text \<open>
  \<open>main\<close> returns 1 when the options parser cannot be created; otherwise it goes on with
  the source path list of the parser.
\<close>

definition main_start :: "string list option \<Rightarrow> state" where
  "main_start parsed =
     (case parsed of
        None \<Rightarrow> \<lparr>pc = Returned 1, workers = [], output_txt = None\<rparr>
      | Some sources \<Rightarrow> \<lparr>pc = Spawning 0, workers = [], output_txt = None\<rparr>)"

definition spawn :: "nat \<Rightarrow> string list \<Rightarrow> nat \<Rightarrow> worker" where
  "spawn K sources i =
     \<lparr>vec = shard K sources i, pending = shard K sources i, sink = [], status = None\<rparr>"

text \<open>
  One step of the main thread.  \<open>thread.join()\<close> returns only once the thread has ended;
  until then the main thread has no step (\<open>None\<close>).
\<close>

definition main_step :: "nat \<Rightarrow> environment \<Rightarrow> string list \<Rightarrow> state \<Rightarrow> state option" where
  "main_step K env sources s =
     (case pc s of
        Spawning i \<Rightarrow>
          if i < K
          then Some (s\<lparr>workers := workers s @ [spawn K sources i], pc := Spawning (i + 1)\<rparr>)
          else Some (s\<lparr>pc := Joining 0\<rparr>)
      | Joining j \<Rightarrow>
          if j < length (workers s)
          then (case status (workers s ! j) of
                  None \<Rightarrow> None
                | Some st \<Rightarrow> Some (s\<lparr>pc := Joining (j + 1)\<rparr>))
          else Some (s\<lparr>pc := Merging\<rparr>)
      | Merging \<Rightarrow>
          Some (s\<lparr>output_txt := Some (cat_sort (collate env) (map sink (workers s))), pc := Returned 0\<rparr>)
      | Returned c \<Rightarrow> None
      | Aborted \<Rightarrow> None)"

text \<open>One step of worker \<open>i\<close>: the next source of its shard, or the end of \<open>run_tool\<close>.\<close>

definition alive :: "state \<Rightarrow> bool" where
  "alive s = (case pc s of Returned c \<Rightarrow> False | Aborted \<Rightarrow> False | _ \<Rightarrow> True)"

definition worker_step :: "environment \<Rightarrow> nat \<Rightarrow> state \<Rightarrow> state option" where
  "worker_step env i s =
     (if alive s \<and> i < length (workers s) \<and> status (workers s ! i) = None
      then (let w = workers s ! i
            in case pending w of
                 [] \<Rightarrow> Some (s\<lparr>workers := (workers s)[i := w\<lparr>status := Some (run_status env (vec w))\<rparr>]\<rparr>)
               | src # rest \<Rightarrow>
                   (case handle_unit env src of
                      None \<Rightarrow> Some (s\<lparr>pc := Aborted\<rparr>)
                    | Some t \<Rightarrow>
                        Some (s\<lparr>workers := (workers s)[i := w\<lparr>pending := rest, sink := sink w @ t\<rparr>]\<rparr>)))
      else None)"

text \<open>A schedule is a list of actions; one that names a thread with no step is no run.\<close>

datatype action = Main | Worker nat

definition step :: "nat \<Rightarrow> environment \<Rightarrow> string list \<Rightarrow> action \<Rightarrow> state \<Rightarrow> state option" where
  "step K env sources a s =
     (case a of Main \<Rightarrow> main_step K env sources s | Worker i \<Rightarrow> worker_step env i s)"

fun run :: "nat \<Rightarrow> environment \<Rightarrow> string list \<Rightarrow> action list \<Rightarrow> state \<Rightarrow> state option" where
  "run K env sources [] s = Some s"
| "run K env sources (a # as) s =
     (case step K env sources a s of
        None \<Rightarrow> None
      | Some s' \<Rightarrow> run K env sources as s')"

text \<open>The report as a function of the inputs alone: the shards' texts in shard order, sorted.\<close>

definition pipeline_report :: "nat \<Rightarrow> environment \<Rightarrow> string list \<Rightarrow> string option" where
  "pipeline_report K env sources =
     map_option (cat_sort (collate env)) (those (map (tool_text env) (shards K sources)))"

section \<open>Auxiliary notions for the proofs\<close>


text \<open>
  A worker thread of shard \<open>sh\<close> has handled a prefix of the shard, its file holds the text
  of that prefix, and it ends only after the whole shard.
\<close>

definition worker_ok :: "environment \<Rightarrow> string list \<Rightarrow> worker \<Rightarrow> bool" where
  "worker_ok env sh w =
     (vec w = sh
      \<and> (\<exists>handled. sh = handled @ pending w \<and> tool_text env handled = Some (sink w))
      \<and> (status w \<noteq> None \<longrightarrow> pending w = []))"

text \<open>What holds of every state a run reaches from the start of \<open>main\<close> with a source list.\<close>

definition run_inv :: "nat \<Rightarrow> environment \<Rightarrow> string list \<Rightarrow> state \<Rightarrow> bool" where
  "run_inv K env sources s =
     ((\<forall>i<length (workers s). worker_ok env (shard K sources i) (workers s ! i))
      \<and> (case pc s of
            Spawning i \<Rightarrow> i \<le> K \<and> length (workers s) = i \<and> output_txt s = None
          | Joining j \<Rightarrow>
              j \<le> K \<and> length (workers s) = K \<and> output_txt s = None
              \<and> (\<forall>k<j. status (workers s ! k) \<noteq> None)
          | Merging \<Rightarrow>
              length (workers s) = K \<and> output_txt s = None
              \<and> (\<forall>k<K. status (workers s ! k) \<noteq> None)
          | Returned c \<Rightarrow>
              c = 0 \<and> length (workers s) = K
              \<and> output_txt s = Some (cat_sort (collate env) (map sink (workers s)))
              \<and> (\<forall>k<K. status (workers s ! k) \<noteq> None)
          | Aborted \<Rightarrow> output_txt s = None))"

text \<open>
  The schedule in which the main thread spawns all workers, the workers then run one after
  the other, and the main thread joins, merges and returns; and worker \<open>i\<close> at its end,
  with its file holding the text \<open>texts ! i\<close>.
\<close>

definition worker_actions :: "nat \<Rightarrow> string list \<Rightarrow> nat \<Rightarrow> action list" where
  "worker_actions K sources i = replicate (length (shard K sources i) + 1) (Worker i)"

definition ended_worker :: "environment \<Rightarrow> nat \<Rightarrow> string list \<Rightarrow> string list \<Rightarrow> nat \<Rightarrow> worker" where
  "ended_worker env K sources texts i =
     \<lparr>vec = shard K sources i, pending = [], sink = texts ! i,
      status = Some (run_status env (shard K sources i))\<rparr>"

definition sequential_schedule :: "nat \<Rightarrow> string list \<Rightarrow> action list" where
  "sequential_schedule K sources =
     replicate (K + 1) Main
     @ concat (map (worker_actions K sources) [0..<K])
     @ replicate (K + 2) Main"

section \<open>Example inputs\<close>

text \<open>
  Five sources for the four workers of the program: the shards are one source each for
  workers 0 to 2 and two sources for worker 3.
\<close>

definition example_sources :: "string list" where
  "example_sources = [''z.cpp'', ''src/m.cpp'', ''a.cpp'', ''dir/k.cpp'', ''b.cpp'']"

definition example_env :: environment where
  "example_env =
     \<lparr>visit = [''z.cpp'' \<mapsto> [''y'', ''X''], ''src/m.cpp'' \<mapsto> [], ''a.cpp'' \<mapsto> [''q''],
               ''dir/k.cpp'' \<mapsto> [''Bb'', ''ba''], ''b.cpp'' \<mapsto> [''v'']],
      run_status = (\<lambda>v. 0),
      std_sort = sort_by,
      collate = bytes_less\<rparr>"

text \<open>A tool that reaches no unit and reports failure for every source list that is not empty.\<close>

definition failing_env :: environment where
  "failing_env =
     \<lparr>visit = (\<lambda>src. None), run_status = (\<lambda>v. if v = [] then 0 else 1),
      std_sort = sort_by, collate = bytes_less\<rparr>"

text \<open>
  Two schedules that take the program to the merge command: the workers one after the
  other once all are spawned, and the workers interleaved with each other and with the
  main thread.
\<close>

definition schedule_a :: "action list" where
  "schedule_a =
     [Main, Main, Main, Main, Main,
      Worker 0, Worker 0, Worker 1, Worker 1, Worker 2, Worker 2, Worker 3, Worker 3, Worker 3,
      Main, Main, Main, Main, Main]"

definition schedule_b :: "action list" where
  "schedule_b =
     [Main, Worker 0, Main, Main, Worker 1, Main, Worker 3, Main, Worker 0, Main,
      Worker 2, Worker 3, Worker 1, Main, Worker 2, Main, Worker 3, Main, Main]"

text \<open>A tool that finds no name in any unit, under a collation that ignores case first.\<close>

definition dictionary_env :: environment where
  "dictionary_env =
     \<lparr>visit = (\<lambda>src. Some []), run_status = (\<lambda>v. 0), std_sort = sort_by,
      collate = dictionary_less\<rparr>"



definition example_report :: string where
  "example_report =
     ''a.cpp q'' @ [newline] @ ''b.cpp v'' @ [newline] @ ''k.cpp ba Bb'' @ [newline]
     @ ''m.cpp'' @ [newline] @ ''z.cpp X y'' @ [newline]"

section \<open>Properties of the partitioner\<close>

subsection \<open>Index ranges are well formed\<close>

lemma chunk_mult_le:
  assumes "i \<le> K" "1 \<le> K"
  shows "i * chunk_size K sources \<le> length sources"
proof -
  have "i * (length sources div K) \<le> K * (length sources div K)"
    using assms(1) by (rule mult_le_mono1)
  also have "\<dots> \<le> length sources"
    by simp
  finally show ?thesis
    by (simp add: chunk_size_def)
qed

lemma shard_range_valid:
  assumes "1 \<le> K" "i < K"
  shows "begin_index K sources i \<le> end_index K sources i \<and> end_index K sources i \<le> length sources"
proof (cases "i = K - 1")
  case True
  then show ?thesis
    using chunk_mult_le [of i K sources] assms
    by (simp add: begin_index_def end_index_def)
next
  case False
  then have "Suc i \<le> K"
    using assms by simp
  then show ?thesis
    using chunk_mult_le [of "Suc i" K sources] assms False
    by (simp add: begin_index_def end_index_def)
qed

lemma shard_inner:
  assumes "i < K - 1"
  shows "shard K sources i = take (chunk_size K sources) (drop (i * chunk_size K sources) sources)"
  using assms by (simp add: shard_def vec_range_def begin_index_def end_index_def)

lemma shard_last:
  assumes "1 \<le> K"
  shows "shard K sources (K - 1) = drop ((K - 1) * chunk_size K sources) sources"
proof -
  have "(K - 1) * chunk_size K sources \<le> length sources"
    using chunk_mult_le [of "K - 1" K sources] assms by simp
  then show ?thesis
    by (simp add: shard_def vec_range_def begin_index_def end_index_def)
qed

lemma concat_inner_shards:
  "n * c \<le> length xs \<Longrightarrow>
   concat (map (\<lambda>i. take c (drop (i * c) xs)) [0..<n]) = take (n * c) xs"
proof (induction n)
  case 0
  then show ?case by simp
next
  case (Suc n)
  then have le: "n * c \<le> length xs"
    by simp
  have "Suc n * c = n * c + c"
    by simp
  then have "take (Suc n * c) xs = take (n * c) xs @ take c (drop (n * c) xs)"
    by (simp only: take_add)
  with Suc.IH [OF le] show ?case
    by simp
qed

lemma shards_split:
  assumes "1 \<le> K"
  shows "shards K sources =
           map (\<lambda>i. take (chunk_size K sources) (drop (i * chunk_size K sources) sources)) [0..<K - 1]
           @ [drop ((K - 1) * chunk_size K sources) sources]"
proof -
  from assms have K: "K = Suc (K - 1)"
    by simp
  have "shards K sources = map (shard K sources) [0..<K - 1] @ [shard K sources (K - 1)]"
    unfolding shards_def by (subst K) (simp del: One_nat_def)
  moreover have "map (shard K sources) [0..<K - 1] =
      map (\<lambda>i. take (chunk_size K sources) (drop (i * chunk_size K sources) sources)) [0..<K - 1]"
    by (rule map_cong) (simp_all add: shard_inner)
  ultimately show ?thesis
    using shard_last [OF assms] by simp
qed

lemma concat_shards:
  assumes "1 \<le> K"
  shows "concat (shards K sources) = sources"
proof -
  let ?c = "chunk_size K sources"
  have le: "(K - 1) * ?c \<le> length sources"
    using chunk_mult_le [of "K - 1" K sources] assms by simp
  have "concat (shards K sources) = take ((K - 1) * ?c) sources @ drop ((K - 1) * ?c) sources"
    by (simp only: shards_split [OF assms] concat_append map_append concat_inner_shards [OF le])
      simp
  then show ?thesis
    by simp
qed

lemma length_shards: "length (shards K sources) = K"
  by (simp add: shards_def)

lemma shards_nth: "i < K \<Longrightarrow> shards K sources ! i = shard K sources i"
  by (simp add: shards_def)

lemma length_shard_inner:
  assumes "1 \<le> K" "i < K - 1"
  shows "length (shard K sources i) = length sources div K"
proof -
  have "Suc i \<le> K"
    using assms by simp
  then have "Suc i * chunk_size K sources \<le> length sources"
    using assms(1) by (rule chunk_mult_le)
  then show ?thesis
    using assms by (simp add: shard_inner chunk_size_def)
qed

lemma length_shard_last:
  assumes "1 \<le> K"
  shows "length (shard K sources (K - 1)) = length sources - (K - 1) * (length sources div K)"
  by (simp only: shard_last [OF assms] chunk_size_def length_drop)

section \<open>Partition theorems\<close>

text \<open>
  C5. For every input list and every worker count \<open>K \<ge> 1\<close>, concatenating the \<open>K\<close>
  shards in shard order gives back the input list exactly: the order is kept, nothing is
  duplicated and nothing is lost.
\<close>

theorem shards_concat:
  assumes "1 \<le> K"
  shows "concat (shards K sources) = sources"
  using assms by (rule concat_shards)

theorem shards_concat_witness:
  "(1::nat) \<le> kThreadsCount \<and>
   concat (shards kThreadsCount [''a.cpp'', ''b.cpp'', ''c.cpp'', ''d.cpp'', ''e.cpp'', ''f.cpp''])
     = [''a.cpp'', ''b.cpp'', ''c.cpp'', ''d.cpp'', ''e.cpp'', ''f.cpp'']"
proof -
  have h: "(1::nat) \<le> kThreadsCount"
    by (simp add: kThreadsCount_def)
  show ?thesis
    using h shards_concat [OF h, of "[''a.cpp'', ''b.cpp'', ''c.cpp'', ''d.cpp'', ''e.cpp'', ''f.cpp'']"]
    by simp
qed

text \<open>
  C6. For every input list of size \<open>N\<close> and worker count \<open>K \<ge> 1\<close> there are exactly \<open>K\<close>
  shards; shards \<open>0, ..., K - 2\<close> have \<open>N div K\<close> elements each and the last one has
  \<open>N - (K - 1) * (N div K)\<close>; each shard is the next run of the input, so the order within
  and across shards is that of the input; and five units split in two give
  \<open>[u0, u1]\<close> and \<open>[u2, u3, u4]\<close>.
\<close>

theorem shards_sizes:
  assumes "1 \<le> K"
  shows "length (shards K sources) = K
    \<and> (\<forall>i<K - 1. length (shards K sources ! i) = length sources div K
          \<and> shards K sources ! i
              = take (length sources div K) (drop (i * (length sources div K)) sources))
    \<and> length (shards K sources ! (K - 1)) = length sources - (K - 1) * (length sources div K)
    \<and> shards K sources ! (K - 1) = drop ((K - 1) * (length sources div K)) sources
    \<and> concat (shards K sources) = sources
    \<and> shards 2 [u0, u1, u2, u3, u4] = [[u0, u1], [u2, u3, u4]]"
proof -
  have inner: "\<forall>i<K - 1. length (shards K sources ! i) = length sources div K
          \<and> shards K sources ! i
              = take (length sources div K) (drop (i * (length sources div K)) sources)"
  proof (intro allI impI)
    fix i
    assume i: "i < K - 1"
    then have "i < K"
      by simp
    then have "shards K sources ! i = shard K sources i"
      by (rule shards_nth)
    then show "length (shards K sources ! i) = length sources div K
          \<and> shards K sources ! i
              = take (length sources div K) (drop (i * (length sources div K)) sources)"
      using length_shard_inner [OF assms i, of sources] shard_inner [OF i, of sources]
      by (simp add: chunk_size_def)
  qed
  have "K - 1 < K"
    using assms by simp
  then have last: "shards K sources ! (K - 1) = shard K sources (K - 1)"
    by (rule shards_nth)
  have "[0..<2] = [0, Suc 0]"
    by (simp add: upt_rec)
  moreover have "length [u0, u1, u2, u3, u4] div 2 = 2"
    by simp
  ultimately have ex: "shards 2 [u0, u1, u2, u3, u4] = [[u0, u1], [u2, u3, u4]]"
    by (simp add: shards_def shard_def vec_range_def begin_index_def end_index_def
        chunk_size_def)
  show ?thesis
    using inner last length_shard_last [OF assms, of sources] shard_last [OF assms, of sources]
      concat_shards [OF assms, of sources] ex
    by (simp only: length_shards chunk_size_def simp_thms)
qed

theorem shards_sizes_witness:
  "(1::nat) \<le> 2
   \<and> length (shards 2 [''u0'', ''u1'', ''u2'', ''u3'', ''u4'']) = 2
   \<and> length (shards 2 [''u0'', ''u1'', ''u2'', ''u3'', ''u4''] ! 0) = 2
   \<and> length (shards 2 [''u0'', ''u1'', ''u2'', ''u3'', ''u4''] ! 1) = 3
   \<and> shards 2 [''u0'', ''u1'', ''u2'', ''u3'', ''u4'']
        = [[''u0'', ''u1''], [''u2'', ''u3'', ''u4'']]"
proof -
  have h: "(1::nat) \<le> 2"
    by simp
  show ?thesis
    using shards_sizes [OF h, of "[''u0'', ''u1'', ''u2'', ''u3'', ''u4'']" "''u0''" "''u1''" "''u2''" "''u3''" "''u4''"]
    by simp
qed

text \<open>
  C7, as stated, fails: with one unit and the four workers of the program the first three
  shards are empty and the unit is in the last shard, so the empty shards are the leading
  ones.
\<close>

theorem small_input_counterexample:
  "length [''a.cpp''] < kThreadsCount
   \<and> shard kThreadsCount [''a.cpp''] 0 = []
   \<and> shard kThreadsCount [''a.cpp''] 3 = [''a.cpp'']
   \<and> shards kThreadsCount [''a.cpp''] = [[], [], [], [''a.cpp'']]"
  by (simp add: kThreadsCount_def shards_def shard_def vec_range_def begin_index_def
      end_index_def chunk_size_def upt_rec)

text \<open>
  C7, amended.  For every input list with \<open>N < K\<close> the chunk size is 0: the shards
  \<open>0, ..., K - 2\<close> are empty and the last shard is the whole input.  The tool run on an
  empty shard writes nothing, so the worker's file has no line.
\<close>

theorem small_input_shards:
  assumes "1 \<le> K" and "length sources < K"
  shows "(\<forall>i<K - 1. shard K sources i = [] \<and> tool_text env (shard K sources i) = Some [])
    \<and> shard K sources (K - 1) = sources
    \<and> split_lines [] = []"
proof -
  have c: "chunk_size K sources = 0"
    using assms(2) by (simp add: chunk_size_def)
  have "\<forall>i<K - 1. shard K sources i = []"
    by (simp add: shard_inner c)
  moreover have "shard K sources (K - 1) = sources"
    by (simp only: shard_last [OF assms(1)] c mult_0_right drop_0)
  ultimately show ?thesis
    by simp
qed

theorem small_input_shards_witness:
  "(1::nat) \<le> kThreadsCount \<and> length [''a.cpp'', ''b.cpp''] < kThreadsCount
   \<and> shard kThreadsCount [''a.cpp'', ''b.cpp''] 0 = []
   \<and> shard kThreadsCount [''a.cpp'', ''b.cpp''] 2 = []
   \<and> shard kThreadsCount [''a.cpp'', ''b.cpp''] (kThreadsCount - 1) = [''a.cpp'', ''b.cpp'']"
proof -
  have h1: "(1::nat) \<le> kThreadsCount"
    by (simp add: kThreadsCount_def)
  have h2: "length [''a.cpp'', ''b.cpp''] < kThreadsCount"
    by (simp add: kThreadsCount_def)
  have "(0::nat) < kThreadsCount - 1" and "(2::nat) < kThreadsCount - 1"
    by (simp_all add: kThreadsCount_def)
  then show ?thesis
    using h1 h2 small_input_shards [OF h1 h2]
    by simp
qed

section \<open>Properties of the display name\<close>

lemma ucast_of_nat_small:
  assumes "p < 2 ^ 31"
  shows "(ucast (of_nat p :: 64 word) :: 32 word) = of_nat p"
proof -
  from assms have "p < 2 ^ 64"
    by (rule less_le_trans) simp
  then have "take_bit 64 p = p"
    by (simp add: take_bit_nat_eq_self_iff)
  then show ?thesis
    by (simp add: unsigned_of_nat)
qed

lemma scast_of_nat_small:
  assumes "p < 2 ^ 31"
  shows "(scast (of_nat p :: 32 word) :: 64 word) = of_nat p"
proof -
  from assms have "int p < 2 ^ 31"
    by (metis of_nat_less_iff of_nat_numeral of_nat_power)
  then have "signed_take_bit 31 (int p) = int p"
    by (simp add: signed_take_bit_int_eq_self)
  then show ?thesis
    by (simp add: signed_of_nat)
qed

lemma unat_of_nat_small:
  assumes "p < 2 ^ 31"
  shows "unat (of_nat p :: 64 word) = p"
proof -
  from assms have "p < 2 ^ 64"
    by (rule less_le_trans) simp
  then show ?thesis
    by (simp add: unat_of_nat)
qed

lemma of_nat_neq_npos:
  assumes "p < 2 ^ 31"
  shows "(of_nat p :: 64 word) \<noteq> npos"
proof
  assume "(of_nat p :: 64 word) = npos"
  then have "unat (of_nat p :: 64 word) = unat (- 1 :: 64 word)"
    by (simp add: npos_def)
  then have "p = 2 ^ 64 - 1"
    by (simp add: unat_of_nat_small [OF assms] unsigned_minus_1_eq_mask mask_eq_exp_minus_1)
  with assms show False
    by simp
qed

lemma npos_round_trip: "(scast (ucast npos :: 32 word) :: 64 word) = npos"
proof -
  have "(ucast (- 1 :: 64 word) :: 32 word) = - 1"
    by (rule bit_word_eqI) (auto simp add: bit_ucast_iff)
  then show ?thesis
    by (simp add: npos_def)
qed

lemma last_index_None: "last_index c s = None \<longleftrightarrow> c \<notin> set s"
  by (induction s) (auto split: option.splits)

lemma takeWhile_until: "c \<notin> set ys \<Longrightarrow> takeWhile (\<lambda>x. x \<noteq> c) (ys @ [c]) = ys"
  by (induction ys) auto

lemma last_index_Some:
  "last_index c s = Some p \<Longrightarrow>
   p < length s \<and> s ! p = c \<and> drop (Suc p) s = rev (takeWhile (\<lambda>x. x \<noteq> c) (rev s))"
proof (induction s arbitrary: p)
  case Nil
  then show ?case by simp
next
  case (Cons x xs)
  show ?case
  proof (cases "last_index c xs")
    case None
    then have notin: "c \<notin> set xs"
      by (simp add: last_index_None)
    from Cons.prems None have "x = c" and "p = 0"
      by (auto split: if_splits)
    moreover have "takeWhile (\<lambda>x. x \<noteq> c) (rev xs @ [c]) = rev xs"
      using notin by (simp add: takeWhile_until)
    ultimately show ?thesis
      by simp
  next
    case (Some q)
    with Cons.prems have p: "p = Suc q"
      by simp
    from Cons.IH [OF Some] have q: "q < length xs" "xs ! q = c"
      and d: "drop (Suc q) xs = rev (takeWhile (\<lambda>x. x \<noteq> c) (rev xs))"
      by simp_all
    from q have "c \<in> set (rev xs)"
      by (metis nth_mem set_rev)
    then have "takeWhile (\<lambda>x. x \<noteq> c) (rev xs @ [x]) = takeWhile (\<lambda>x. x \<noteq> c) (rev xs)"
      by (intro takeWhile_append1 [of c]) simp_all
    with p q d show ?thesis
      by simp
  qed
qed

lemma MyAstConsumer_short:
  assumes "length filename < 2 ^ 31"
  shows "MyAstConsumer filename =
           Some (if CHR ''/'' \<in> set filename then after_last_slash filename else filename)"
proof (cases "last_index CHR ''/'' filename")
  case None
  then have "rfind filename CHR ''/'' = npos"
    by (simp add: rfind_def)
  moreover from None have "CHR ''/'' \<notin> set filename"
    by (simp add: last_index_None)
  ultimately show ?thesis
    by (simp add: MyAstConsumer_def npos_round_trip)
next
  case (Some p)
  from last_index_Some [OF Some] have p: "p < length filename"
    and d: "drop (Suc p) filename = after_last_slash filename"
    and c: "filename ! p = CHR ''/''"
    by (simp_all add: after_last_slash_def)
  from p assms have p31: "p < 2 ^ 31" and sp31: "Suc p < 2 ^ 31"
    by simp_all
  from p c have mem: "CHR ''/'' \<in> set filename"
    by (metis nth_mem)
  have pos: "(ucast (rfind filename CHR ''/'') :: 32 word) = of_nat p"
    using Some by (simp add: rfind_def ucast_of_nat_small [OF p31])
  have cmp: "(scast (of_nat p :: 32 word) :: 64 word) \<noteq> npos"
    by (simp add: scast_of_nat_small [OF p31] of_nat_neq_npos [OF p31])
  have "(of_nat p :: 32 word) + 1 = of_nat (Suc p)"
    by simp
  then have arg: "unat (scast ((of_nat p :: 32 word) + 1) :: 64 word) = Suc p"
    by (simp only: scast_of_nat_small [OF sp31] unat_of_nat_small [OF sp31])
  have "MyAstConsumer filename = substr filename (scast ((of_nat p :: 32 word) + 1))"
    using cmp by (simp add: MyAstConsumer_def pos)
  also have "\<dots> = Some (drop (Suc p) filename)"
    using p by (simp add: substr_def arg)
  finally show ?thesis
    using d mem by simp
qed

section \<open>Display name theorem\<close>

text \<open>
  C10. For a path shorter than \<open>2^31\<close> bytes (every path the tool can be given is) that
  contains \<open>'/'\<close>, the name written at the start of the line is the substring after the
  last \<open>'/'\<close>; a path without \<open>'/'\<close> is used as it is.  The constructor does not
  throw on such paths.
\<close>

theorem display_name:
  assumes "length filename < 2 ^ 31"
  shows "MyAstConsumer filename =
           Some (if CHR ''/'' \<in> set filename then after_last_slash filename else filename)"
  using assms by (rule MyAstConsumer_short)

theorem display_name_witness:
  "length ''src/dir/a.cpp'' < (2::nat) ^ 31 \<and> length ''b.cpp'' < (2::nat) ^ 31
   \<and> MyAstConsumer ''src/dir/a.cpp'' = Some ''a.cpp''
   \<and> MyAstConsumer ''b.cpp'' = Some ''b.cpp''"
proof -
  have h1: "length ''src/dir/a.cpp'' < (2::nat) ^ 31" and h2: "length ''b.cpp'' < (2::nat) ^ 31"
    by simp_all
  show ?thesis
    using h1 h2 display_name [OF h1] display_name [OF h2]
    by (simp add: after_last_slash_def)
qed

section \<open>Properties of the insertion sort\<close>

lemma mset_insert_by: "mset (insert_by lt x ys) = add_mset x (mset ys)"
  by (induction ys) simp_all

lemma mset_sort_by: "mset (sort_by lt xs) = mset xs"
  by (induction xs) (simp_all add: sort_by_def mset_insert_by)

lemma set_insert_by: "set (insert_by lt x ys) = insert x (set ys)"
  by (induction ys) auto

lemma sorted_insert_by:
  assumes asym: "\<And>a b. lt a b \<Longrightarrow> \<not> lt b a"
    and ntrans: "\<And>a b c. \<not> lt b a \<Longrightarrow> \<not> lt c b \<Longrightarrow> \<not> lt c a"
    and sorted: "sorted_wrt (\<lambda>a b. \<not> lt b a) ys"
  shows "sorted_wrt (\<lambda>a b. \<not> lt b a) (insert_by lt x ys)"
  using sorted
proof (induction ys)
  case Nil
  then show ?case by simp
next
  case (Cons y ys)
  show ?case
  proof (cases "lt y x")
    case True
    then have "\<not> lt x y"
      by (rule asym)
    with True Cons show ?thesis
      by (auto simp add: set_insert_by)
  next
    case False
    have "\<not> lt z x" if "z \<in> set ys" for z
    proof -
      from that Cons.prems have "\<not> lt z y"
        by simp
      with False show ?thesis
        by (rule ntrans)
    qed
    with False Cons.prems show ?thesis
      by auto
  qed
qed

lemma sorted_sort_by:
  assumes asym: "\<And>a b. lt a b \<Longrightarrow> \<not> lt b a"
    and ntrans: "\<And>a b c. \<not> lt b a \<Longrightarrow> \<not> lt c b \<Longrightarrow> \<not> lt c a"
  shows "sorted_wrt (\<lambda>a b. \<not> lt b a) (sort_by lt xs)"
proof (induction xs)
  case Nil
  then show ?case by (simp add: sort_by_def)
next
  case (Cons x xs)
  have "sorted_wrt (\<lambda>a b. \<not> lt b a) (insert_by lt x (sort_by lt xs))"
    using asym ntrans Cons.IH by (rule sorted_insert_by)
  then show ?case
    by (simp add: sort_by_def)
qed

section \<open>Properties of the comparator of the names\<close>

lemma names_less_lexordp: "names_less a b \<longleftrightarrow> ord_class.lexordp (fold_case a) (fold_case b)"
  by (induction a b rule: names_less.induct) (auto simp add: fold_case_def)

lemma names_less_asym: "names_less a b \<Longrightarrow> \<not> names_less b a"
  unfolding names_less_lexordp using lexordp_antisym by blast

lemma names_less_ntrans:
  assumes "\<not> names_less b a" and "\<not> names_less c b"
  shows "\<not> names_less c a"
proof
  assume "names_less c a"
  then have ca: "ord_class.lexordp (fold_case c) (fold_case a)"
    by (simp add: names_less_lexordp)
  from assms have nba: "\<not> ord_class.lexordp (fold_case b) (fold_case a)"
    and ncb: "\<not> ord_class.lexordp (fold_case c) (fold_case b)"
    by (simp_all add: names_less_lexordp)
  from nba consider "ord_class.lexordp (fold_case a) (fold_case b)" | "fold_case a = fold_case b"
    using lexordp_linear [of "fold_case a" "fold_case b"] by blast
  then show False
  proof cases
    case 1
    with ca have "ord_class.lexordp (fold_case c) (fold_case b)"
      by (rule lexordp_trans)
    with ncb show False ..
  next
    case 2
    with ca ncb show False
      by simp
  qed
qed

lemma fold_case_length: "fold_case a = fold_case b \<Longrightarrow> length a = length b"
  by (metis fold_case_def length_map)

lemma names_less_ci_less: "names_less a b \<longleftrightarrow> ci_less a b"
  by (auto simp add: ci_less_def names_less_lexordp dest: fold_case_length)

lemma names_less_common_prefix:
  "\<not> names_less b a \<Longrightarrow>
   fold_case (take (min (length a) (length b)) a) = fold_case (take (min (length a) (length b)) b) \<Longrightarrow>
   length a \<le> length b"
proof (induction a b rule: names_less.induct)
  case (1 b)
  then show ?case by simp
next
  case (2 x a)
  then show ?case by simp
next
  case (3 x a y b)
  from "3.prems"(2) have hd: "tolower (char_to_int x) = tolower (char_to_int y)"
    and tl: "fold_case (take (min (length a) (length b)) a) = fold_case (take (min (length a) (length b)) b)"
    by (simp_all add: fold_case_def)
  from "3.prems"(1) hd have "\<not> names_less b a"
    by simp
  with "3.IH" hd tl have "length a \<le> length b"
    by simp
  then show ?case
    by simp
qed


section \<open>The contract of the sorting routine\<close>

lemma strict_weak_orderD:
  assumes "strict_weak_order lt"
  shows "lt a b \<Longrightarrow> \<not> lt b a" and "\<not> lt b a \<Longrightarrow> \<not> lt c b \<Longrightarrow> \<not> lt c a"
  using assms unfolding strict_weak_order_def by blast+

lemma sort_contract_sort_by: "sort_contract sort_by"
  unfolding sort_contract_def
proof (intro allI impI conjI)
  fix lt :: "'a \<Rightarrow> 'a \<Rightarrow> bool" and xs
  assume swo: "strict_weak_order lt"
  show "mset (sort_by lt xs) = mset xs"
    by (rule mset_sort_by)
  from strict_weak_orderD [OF swo] show "sorted_wrt (\<lambda>a b. \<not> lt b a) (sort_by lt xs)"
    by (rule sorted_sort_by)
qed

lemma strict_weak_order_names: "strict_weak_order names_less"
  unfolding strict_weak_order_def using names_less_asym names_less_ntrans by blast

lemma sorted_perm_unique:
  assumes swo: "strict_weak_order lt"
  shows "sorted_wrt (\<lambda>a b. \<not> lt b a) xs \<Longrightarrow> sorted_wrt (\<lambda>a b. \<not> lt b a) ys \<Longrightarrow>
    mset xs = mset ys \<Longrightarrow> (\<forall>a\<in>set xs. \<forall>b\<in>set xs. \<not> lt a b \<and> \<not> lt b a \<longrightarrow> a = b) \<Longrightarrow>
    xs = ys"
proof (induction xs arbitrary: ys)
  case Nil
  then show ?case by simp
next
  case (Cons x xs)
  from Cons.prems(3) have "ys \<noteq> []"
    by auto
  then obtain y ys' where ys: "ys = y # ys'"
    by (cases ys) auto
  have irr: "\<not> lt a a" for a
    using strict_weak_orderD(1) [OF swo] by blast
  from Cons.prems(3) have sets: "set (x # xs) = set ys"
    by (metis set_mset_mset)
  have "\<not> lt y x"
  proof (cases "y = x")
    case True
    then show ?thesis by (simp add: irr)
  next
    case False
    with sets ys have "y \<in> set xs"
      by auto
    with Cons.prems(1) show ?thesis
      by simp
  qed
  moreover have "\<not> lt x y"
  proof (cases "x = y")
    case True
    then show ?thesis by (simp add: irr)
  next
    case False
    with sets ys have "x \<in> set ys'"
      by auto
    with Cons.prems(2) ys show ?thesis
      by simp
  qed
  moreover from sets ys have "y \<in> set (x # xs)"
    by auto
  ultimately have xy: "x = y"
    using Cons.prems(4) by auto
  with Cons.prems(3) ys have m: "mset xs = mset ys'"
    by simp
  from Cons.prems(1,2,4) ys have "sorted_wrt (\<lambda>a b. \<not> lt b a) xs"
    and "sorted_wrt (\<lambda>a b. \<not> lt b a) ys'"
    and "\<forall>a\<in>set xs. \<forall>b\<in>set xs. \<not> lt a b \<and> \<not> lt b a \<longrightarrow> a = b"
    by simp_all
  with m have "xs = ys'"
    by (intro Cons.IH)
  with xy ys show ?case
    by simp
qed

lemma std_sort_names_props:
  assumes "sort_contract (std_sort env)"
  shows "mset (std_sort_names env names) = mset names"
    and "sorted_wrt (\<lambda>a b. \<not> names_less b a) (std_sort_names env names)"
  using assms strict_weak_order_names
  unfolding sort_contract_def std_sort_names_def by blast+

lemma std_sort_names_unique:
  assumes c: "sort_contract (std_sort env)"
    and s: "sorted_wrt (\<lambda>a b. \<not> names_less b a) xs"
    and m: "mset xs = mset names"
    and d: "\<forall>a\<in>set xs. \<forall>b\<in>set xs. \<not> names_less a b \<and> \<not> names_less b a \<longrightarrow> a = b"
  shows "std_sort_names env names = xs"
proof -
  from m std_sort_names_props(1) [OF c, of names]
  have "mset xs = mset (std_sort_names env names)"
    by simp
  with strict_weak_order_names s std_sort_names_props(2) [OF c, of names] have
    "xs = std_sort_names env names"
    using d by (rule sorted_perm_unique)
  then show ?thesis
    by simp
qed


section \<open>Normalisation theorem\<close>

text \<open>
  C4. Whenever \<open>std::sort\<close> keeps to its contract, the names of one unit are written in the
  order of a case-insensitive lexicographic comparison: the comparator of the code is the
  spec's comparator and a strict weak order, the written sequence is a permutation of the
  unit's names in which no later name is smaller than an earlier one, and of two names that
  agree case-insensitively on the length of the shorter one the shorter comes first.
  \<open>["Zeta", "apple", "Be"]\<close> is written as \<open>["apple", "Be", "Zeta"]\<close>, and a name that
  starts with a byte from 128 on comes after a name of ASCII letters.  The sort is applied
  to the names of one unit at a time: the lines of two units keep their own names.
\<close>

theorem facts_normalized:
  assumes "sort_contract (std_sort env)"
  shows "(names_less a b \<longleftrightarrow> ci_less a b)
   \<and> strict_weak_order names_less
   \<and> sorted_wrt (\<lambda>a b. \<not> ci_less b a) (std_sort_names env names)
   \<and> mset (std_sort_names env names) = mset names
   \<and> (\<forall>i j. i < j \<and> j < length names
          \<and> fold_case (take (min (length (std_sort_names env names ! i)) (length (std_sort_names env names ! j)))
                         (std_sort_names env names ! i))
              = fold_case (take (min (length (std_sort_names env names ! i)) (length (std_sort_names env names ! j)))
                           (std_sort_names env names ! j))
        \<longrightarrow> length (std_sort_names env names ! i) \<le> length (std_sort_names env names ! j))
   \<and> std_sort_names env [''Zeta'', ''apple'', ''Be''] = [''apple'', ''Be'', ''Zeta'']
   \<and> std_sort_names env [[CHR 0xC3, CHR 0xA9], ''a''] = [''a'', [CHR 0xC3, CHR 0xA9]]
   \<and> flushToFile env fname names
        = fname @ concat (map (\<lambda>n. '' '' @ n) (std_sort_names env names)) @ [newline]
   \<and> (visit env ''u1'' = Some [''b'', ''A''] \<and> visit env ''u2'' = Some [''a'', ''B'']
        \<longrightarrow> tool_text env [''u1'', ''u2'']
              = Some (''u1 A b'' @ [newline] @ ''u2 a B'' @ [newline]))"
proof -
  let ?out = "std_sort_names env names"
  note eval = tolower_def char_to_int_def
  have sorted: "sorted_wrt (\<lambda>a b. \<not> names_less b a) ?out"
    using assms by (rule std_sort_names_props)
  then have c2: "sorted_wrt (\<lambda>a b. \<not> ci_less b a) ?out"
    by (simp add: names_less_ci_less)
  have c3: "mset ?out = mset names"
    using assms by (rule std_sort_names_props)
  then have len: "length ?out = length names"
    by (metis size_mset)
  have c4: "\<forall>i j. i < j \<and> j < length names
          \<and> fold_case (take (min (length (?out ! i)) (length (?out ! j))) (?out ! i))
              = fold_case (take (min (length (?out ! i)) (length (?out ! j))) (?out ! j))
        \<longrightarrow> length (?out ! i) \<le> length (?out ! j)"
  proof (intro allI impI, elim conjE)
    fix i j
    assume ij: "i < j" and j: "j < length names"
      and eq: "fold_case (take (min (length (?out ! i)) (length (?out ! j))) (?out ! i))
              = fold_case (take (min (length (?out ! i)) (length (?out ! j))) (?out ! j))"
    from sorted ij j len have "\<not> names_less (?out ! j) (?out ! i)"
      by (simp add: sorted_wrt_iff_nth_less)
    then show "length (?out ! i) \<le> length (?out ! j)"
      using eq by (rule names_less_common_prefix)
  qed
  have c5: "std_sort_names env [''Zeta'', ''apple'', ''Be''] = [''apple'', ''Be'', ''Zeta'']"
    using assms by (rule std_sort_names_unique) (simp_all add: eval)
  have c5': "std_sort_names env [[CHR 0xC3, CHR 0xA9], ''a''] = [''a'', [CHR 0xC3, CHR 0xA9]]"
    using assms by (rule std_sort_names_unique) (simp_all add: eval)
  have c6: "flushToFile env fname names
        = fname @ concat (map (\<lambda>n. '' '' @ n) (std_sort_names env names)) @ [newline]"
    by (simp add: flushToFile_def record_line_def)
  have u1: "std_sort_names env [''b'', ''A''] = [''A'', ''b'']"
    using assms by (rule std_sort_names_unique) (simp_all add: eval)
  have u2: "std_sort_names env [''a'', ''B''] = [''a'', ''B'']"
    using assms by (rule std_sort_names_unique) (simp_all add: eval)
  have "MyAstConsumer ''u1'' = Some ''u1''" and "MyAstConsumer ''u2'' = Some ''u2''"
    using MyAstConsumer_short [of "''u1''"] MyAstConsumer_short [of "''u2''"] by simp_all
  with u1 u2 have c7: "visit env ''u1'' = Some [''b'', ''A''] \<and> visit env ''u2'' = Some [''a'', ''B'']
        \<longrightarrow> tool_text env [''u1'', ''u2'']
              = Some (''u1 A b'' @ [newline] @ ''u2 a B'' @ [newline])"
    by (simp add: handle_unit_def flushToFile_def record_line_def)
  from names_less_ci_less strict_weak_order_names c2 c3 c4 c5 c5' c6 c7 show ?thesis
    by (intro conjI)
qed

theorem facts_normalized_witness:
  "sort_contract (std_sort example_env)
   \<and> std_sort_names example_env [''Abc'', ''ab'', ''a''] = [''a'', ''ab'', ''Abc'']
   \<and> (0::nat) < 1 \<and> 1 < length [''Abc'', ''ab'', ''a'']
   \<and> fold_case (take (min (length (std_sort_names example_env [''Abc'', ''ab'', ''a''] ! 0)) (length (std_sort_names example_env [''Abc'', ''ab'', ''a''] ! 1))) (std_sort_names example_env [''Abc'', ''ab'', ''a''] ! 0))
       = fold_case (take (min (length (std_sort_names example_env [''Abc'', ''ab'', ''a''] ! 0)) (length (std_sort_names example_env [''Abc'', ''ab'', ''a''] ! 1))) (std_sort_names example_env [''Abc'', ''ab'', ''a''] ! 1))
   \<and> length (std_sort_names example_env [''Abc'', ''ab'', ''a''] ! 0) \<le> length (std_sort_names example_env [''Abc'', ''ab'', ''a''] ! 1)"
proof -
  have c: "sort_contract (std_sort example_env)"
    by (simp add: example_env_def sort_contract_sort_by)
  have e: "std_sort_names example_env [''Abc'', ''ab'', ''a''] = [''a'', ''ab'', ''Abc'']"
    by (simp add: std_sort_names_def example_env_def sort_by_def tolower_def char_to_int_def)
  have "\<forall>i j. i < j \<and> j < length [''Abc'', ''ab'', ''a'']
          \<and> fold_case (take (min (length (std_sort_names example_env [''Abc'', ''ab'', ''a''] ! i)) (length (std_sort_names example_env [''Abc'', ''ab'', ''a''] ! j))) (std_sort_names example_env [''Abc'', ''ab'', ''a''] ! i))
              = fold_case (take (min (length (std_sort_names example_env [''Abc'', ''ab'', ''a''] ! i)) (length (std_sort_names example_env [''Abc'', ''ab'', ''a''] ! j))) (std_sort_names example_env [''Abc'', ''ab'', ''a''] ! j))
        \<longrightarrow> length (std_sort_names example_env [''Abc'', ''ab'', ''a''] ! i) \<le> length (std_sort_names example_env [''Abc'', ''ab'', ''a''] ! j)"
    using facts_normalized [OF c, of "''a''" "''b''" "[''Abc'', ''ab'', ''a'']" "''f''"]
    by (elim conjE)
  from this [rule_format, of 0 1] c e show ?thesis
    by (simp add: fold_case_def)
qed

section \<open>Properties of lines and of the line sorter\<close>

lemma split_lines_no_newline: "l \<in> set (split_lines s) \<Longrightarrow> newline \<notin> set l"
proof (induction s arbitrary: l)
  case Nil
  then show ?case by simp
next
  case (Cons c cs)
  then show ?case
    by (cases "split_lines cs") (auto split: if_splits)
qed

lemma split_lines_line:
  "newline \<notin> set l \<Longrightarrow> split_lines (l @ newline # rest) = l # split_lines rest"
  by (induction l) auto

lemma split_lines_unlines:
  "\<forall>l\<in>set ls. newline \<notin> set l \<Longrightarrow> split_lines (unlines ls) = ls"
proof (induction ls)
  case Nil
  then show ?case by (simp add: unlines_def)
next
  case (Cons l ls)
  then have "split_lines (unlines ls) = ls" and "newline \<notin> set l"
    by simp_all
  then show ?case
    using split_lines_line [of l "unlines ls"] by (simp add: unlines_def)
qed

lemma unlines_append: "unlines (xs @ ys) = unlines xs @ unlines ys"
  by (simp add: unlines_def)

lemma of_char_nat_less:
  assumes "x \<noteq> y" and "\<not> (of_char y :: nat) < of_char x"
  shows "(of_char x :: nat) < of_char y"
proof -
  from assms(1) have "(of_char x :: nat) \<noteq> of_char y"
    by simp
  with assms(2) show ?thesis
    by linarith
qed

lemma bytes_less_lexordp:
  "bytes_less a b \<longleftrightarrow> ord_class.lexordp (map of_char a :: nat list) (map of_char b)"
  by (induction a b rule: bytes_less.induct) (auto intro: of_char_nat_less)

lemma bytes_less_asym: "bytes_less a b \<Longrightarrow> \<not> bytes_less b a"
  unfolding bytes_less_lexordp using lexordp_antisym by blast

lemma bytes_less_ntrans:
  assumes "\<not> bytes_less b a" and "\<not> bytes_less c b"
  shows "\<not> bytes_less c a"
proof
  let ?k = "\<lambda>s. map of_char s :: nat list"
  assume "bytes_less c a"
  then have ca: "ord_class.lexordp (?k c) (?k a)"
    by (simp add: bytes_less_lexordp)
  from assms have nba: "\<not> ord_class.lexordp (?k b) (?k a)"
    and ncb: "\<not> ord_class.lexordp (?k c) (?k b)"
    by (simp_all add: bytes_less_lexordp)
  from nba consider "ord_class.lexordp (?k a) (?k b)" | "?k a = ?k b"
    using lexordp_linear [of "?k a" "?k b"] by blast
  then show False
  proof cases
    case 1
    with ca have "ord_class.lexordp (?k c) (?k b)"
      by (rule lexordp_trans)
    with ncb show False ..
  next
    case 2
    with ca ncb show False
      by simp
  qed
qed

lemma bytes_le_lexordp_eq:
  "bytes_le a b \<longleftrightarrow> ord_class.lexordp_eq (map of_char a :: nat list) (map of_char b)"
  unfolding bytes_le_def bytes_less_lexordp
  using lexordp_conv_lexordp_eq lexordp_eq_linear by blast

lemma sorted_sort_bytes: "sorted_wrt bytes_le (sort_by bytes_less ls)"
proof -
  have "sorted_wrt (\<lambda>a b. \<not> bytes_less b a) (sort_by bytes_less ls)"
    using bytes_less_asym bytes_less_ntrans by (rule sorted_sort_by)
  moreover have "bytes_le = (\<lambda>a b. \<not> bytes_less b a)"
    by (intro ext) (simp add: bytes_le_def)
  ultimately show ?thesis
    by simp
qed

lemma split_lines_unix_sort:
  "split_lines (unix_sort lt input) = sort_by lt (split_lines input)"
proof -
  have "set (sort_by lt (split_lines input)) = set (split_lines input)"
    by (metis mset_sort_by set_mset_mset)
  then have "\<forall>l\<in>set (sort_by lt (split_lines input)). newline \<notin> set l"
    by (simp add: split_lines_no_newline)
  then show ?thesis
    unfolding unix_sort_def by (rule split_lines_unlines)
qed

section \<open>The invariant of the runs\<close>

lemma tool_text_snoc:
  "tool_text env xs = Some a \<Longrightarrow> handle_unit env u = Some t \<Longrightarrow>
   tool_text env (xs @ [u]) = Some (a @ t)"
proof (induction xs arbitrary: a)
  case Nil
  then show ?case by simp
next
  case (Cons x xs)
  from Cons.prems(1) obtain tx ts where x: "handle_unit env x = Some tx"
    and xs: "tool_text env xs = Some ts" and a: "a = tx @ ts"
    by (auto split: option.splits)
  from Cons.IH [OF xs Cons.prems(2)] x a show ?case
    by simp
qed

lemma worker_ok_spawn: "worker_ok env (shard K sources i) (spawn K sources i)"
  by (simp add: worker_ok_def spawn_def)

lemma worker_ok_finish:
  assumes "worker_ok env sh w" and "pending w = []"
  shows "worker_ok env sh (w\<lparr>status := Some st\<rparr>)"
  using assms by (simp add: worker_ok_def)

lemma worker_ok_unit:
  assumes ok: "worker_ok env sh w" and p: "pending w = src # rest"
    and h: "handle_unit env src = Some t" and st: "status w = None"
  shows "worker_ok env sh (w\<lparr>pending := rest, sink := sink w @ t\<rparr>)"
proof -
  from ok obtain handled where sh: "sh = handled @ pending w"
    and text_eq: "tool_text env handled = Some (sink w)" and v: "vec w = sh"
    by (auto simp add: worker_ok_def)
  from sh p have "sh = (handled @ [src]) @ rest"
    by simp
  moreover from text_eq h have "tool_text env (handled @ [src]) = Some (sink w @ t)"
    by (rule tool_text_snoc)
  ultimately have "\<exists>hs. sh = hs @ rest \<and> tool_text env hs = Some (sink w @ t)"
    by blast
  with v st show ?thesis
    by (simp add: worker_ok_def)
qed

lemma run_inv_start: "run_inv K env sources (main_start (Some sources'))"
  by (simp add: run_inv_def main_start_def)

lemma run_inv_main_step:
  assumes inv: "run_inv K env sources s" and st: "main_step K env sources s = Some s'"
  shows "run_inv K env sources s'"
proof (cases "pc s")
  case (Spawning i)
  with inv have len: "length (workers s) = i" and le: "i \<le> K" and out: "output_txt s = None"
    and oks: "\<forall>k<length (workers s). worker_ok env (shard K sources k) (workers s ! k)"
    by (simp_all add: run_inv_def)
  show ?thesis
  proof (cases "i < K")
    case True
    with st Spawning have s': "s' = s\<lparr>workers := workers s @ [spawn K sources i], pc := Spawning (i + 1)\<rparr>"
      by (simp add: main_step_def)
    have "worker_ok env (shard K sources k) ((workers s @ [spawn K sources i]) ! k)"
      if "k < Suc i" for k
    proof (cases "k < i")
      case True
      with oks len show ?thesis
        by (simp add: nth_append)
    next
      case False
      with that have "k = i"
        by simp
      with len show ?thesis
        by (simp add: nth_append worker_ok_spawn)
    qed
    with True len out show ?thesis
      by (simp add: s' run_inv_def)
  next
    case False
    with st Spawning have s': "s' = s\<lparr>pc := Joining 0\<rparr>"
      by (simp add: main_step_def)
    from False le have "i = K"
      by simp
    with len out oks show ?thesis
      by (simp add: s' run_inv_def)
  qed
next
  case (Joining j)
  with inv have len: "length (workers s) = K" and le: "j \<le> K" and out: "output_txt s = None"
    and joined: "\<forall>k<j. status (workers s ! k) \<noteq> None"
    and oks: "\<forall>k<length (workers s). worker_ok env (shard K sources k) (workers s ! k)"
    by (simp_all add: run_inv_def)
  show ?thesis
  proof (cases "j < length (workers s)")
    case True
    with st Joining have ended: "status (workers s ! j) \<noteq> None" and s': "s' = s\<lparr>pc := Joining (j + 1)\<rparr>"
      by (auto simp add: main_step_def split: option.splits)
    from joined ended have "\<forall>k<Suc j. status (workers s ! k) \<noteq> None"
      by (simp add: less_Suc_eq)
    with True len out oks show ?thesis
      by (simp add: s' run_inv_def)
  next
    case False
    with st Joining have s': "s' = s\<lparr>pc := Merging\<rparr>"
      by (simp add: main_step_def)
    from False le len have "j = K"
      by simp
    with joined len out oks show ?thesis
      by (simp add: s' run_inv_def)
  qed
next
  case Merging
  with st have s': "s' = s\<lparr>output_txt := Some (cat_sort (collate env) (map sink (workers s))), pc := Returned 0\<rparr>"
    by (simp add: main_step_def)
  from inv Merging show ?thesis
    by (simp add: s' run_inv_def)
next
  case (Returned c)
  with st show ?thesis
    by (simp add: main_step_def)
next
  case Aborted
  with st show ?thesis
    by (simp add: main_step_def)
qed

lemma alive_output_None:
  assumes "run_inv K env sources s" and "alive s"
  shows "output_txt s = None"
  using assms by (cases "pc s") (simp_all add: run_inv_def alive_def)

lemma run_inv_update_worker:
  assumes inv: "run_inv K env sources s" and al: "alive s" and i: "i < length (workers s)"
    and ok: "worker_ok env (shard K sources i) w'"
    and mono: "status (workers s ! i) \<noteq> None \<Longrightarrow> status w' \<noteq> None"
  shows "run_inv K env sources (s\<lparr>workers := (workers s)[i := w']\<rparr>)"
proof -
  have oks: "worker_ok env (shard K sources k) ((workers s)[i := w'] ! k)"
    if "k < length (workers s)" for k
    using that inv ok by (cases "k = i") (simp_all add: run_inv_def)
  have sts: "status ((workers s)[i := w'] ! k) \<noteq> None"
    if "k < length (workers s)" and "status (workers s ! k) \<noteq> None" for k
    using that mono by (cases "k = i") simp_all
  show ?thesis
  proof (cases "pc s")
    case (Spawning n)
    with inv oks show ?thesis
      by (simp add: run_inv_def)
  next
    case (Joining j)
    with inv have "\<forall>k<j. status (workers s ! k) \<noteq> None" and "j \<le> K" and "length (workers s) = K"
      by (simp_all add: run_inv_def)
    then have "\<forall>k<j. status ((workers s)[i := w'] ! k) \<noteq> None"
      using sts by simp
    with inv oks Joining show ?thesis
      by (simp add: run_inv_def)
  next
    case Merging
    with inv have "\<forall>k<K. status (workers s ! k) \<noteq> None" and "length (workers s) = K"
      by (simp_all add: run_inv_def)
    then have "\<forall>k<K. status ((workers s)[i := w'] ! k) \<noteq> None"
      using sts by simp
    with inv oks Merging show ?thesis
      by (simp add: run_inv_def)
  next
    case (Returned c)
    with al show ?thesis
      by (simp add: alive_def)
  next
    case Aborted
    with al show ?thesis
      by (simp add: alive_def)
  qed
qed

lemma run_inv_abort:
  assumes "run_inv K env sources s" and "alive s"
  shows "run_inv K env sources (s\<lparr>pc := Aborted\<rparr>)"
  using assms alive_output_None [OF assms] by (simp add: run_inv_def)

lemma run_inv_worker_step:
  assumes inv: "run_inv K env sources s" and st: "worker_step env i s = Some s'"
  shows "run_inv K env sources s'"
proof -
  from st have al: "alive s" and i: "i < length (workers s)" and run: "status (workers s ! i) = None"
    by (simp_all add: worker_step_def split: if_splits)
  let ?w = "workers s ! i"
  from inv i have ok: "worker_ok env (shard K sources i) ?w"
    by (simp add: run_inv_def)
  show ?thesis
  proof (cases "pending ?w")
    case Nil
    with st al i run have s': "s' = s\<lparr>workers := (workers s)[i := ?w\<lparr>status := Some (run_status env (vec ?w))\<rparr>]\<rparr>"
      by (simp add: worker_step_def Let_def)
    from ok Nil have "worker_ok env (shard K sources i) (?w\<lparr>status := Some (run_status env (vec ?w))\<rparr>)"
      by (rule worker_ok_finish)
    with inv al i show ?thesis
      unfolding s' by (rule run_inv_update_worker) simp
  next
    case (Cons src rest)
    show ?thesis
    proof (cases "handle_unit env src")
      case None
      with st al i run Cons have "s' = s\<lparr>pc := Aborted\<rparr>"
        by (simp add: worker_step_def Let_def)
      with inv al show ?thesis
        by (simp add: run_inv_abort)
    next
      case (Some t)
      with st al i run Cons have s': "s' = s\<lparr>workers := (workers s)[i := ?w\<lparr>pending := rest, sink := sink ?w @ t\<rparr>]\<rparr>"
        by (simp add: worker_step_def Let_def)
      from ok Cons Some run have "worker_ok env (shard K sources i) (?w\<lparr>pending := rest, sink := sink ?w @ t\<rparr>)"
        by (rule worker_ok_unit)
      with inv al i show ?thesis
        unfolding s' by (rule run_inv_update_worker) (simp add: run)
    qed
  qed
qed

lemma run_inv_step:
  assumes "run_inv K env sources s" and "step K env sources a s = Some s'"
  shows "run_inv K env sources s'"
  using assms by (cases a) (auto simp add: step_def intro: run_inv_main_step run_inv_worker_step)

lemma run_inv_run:
  assumes "run_inv K env sources s" and "run K env sources acts s = Some s'"
  shows "run_inv K env sources s'"
  using assms
proof (induction acts arbitrary: s)
  case Nil
  then show ?case by simp
next
  case (Cons a acts)
  from Cons.prems(2) obtain s1 where a: "step K env sources a s = Some s1"
    and rest: "run K env sources acts s1 = Some s'"
    by (auto split: option.splits)
  from Cons.prems(1) a have "run_inv K env sources s1"
    by (rule run_inv_step)
  then show ?case
    using rest by (rule Cons.IH)
qed

lemma run_inv_reached:
  assumes "run K env sources acts (main_start (Some sources)) = Some s"
  shows "run_inv K env sources s"
  using run_inv_start assms by (rule run_inv_run)

section \<open>Consequences of the invariant\<close>

lemma those_map_Some: "those (map Some xs) = Some xs"
  by (induction xs) simp_all

lemma joined_workers:
  assumes inv: "run_inv K env sources s" and len: "length (workers s) = K"
    and ended: "\<forall>k<K. status (workers s ! k) \<noteq> None" and k: "k < K"
  shows "pending (workers s ! k) = []
    \<and> tool_text env (shard K sources k) = Some (sink (workers s ! k))"
proof -
  from inv len k have "worker_ok env (shard K sources k) (workers s ! k)"
    by (simp add: run_inv_def)
  moreover from ended k have "status (workers s ! k) \<noteq> None"
    by simp
  ultimately show ?thesis
    by (auto simp add: worker_ok_def)
qed

lemma joined_sinks:
  assumes inv: "run_inv K env sources s" and len: "length (workers s) = K"
    and ended: "\<forall>k<K. status (workers s ! k) \<noteq> None"
  shows "those (map (tool_text env) (shards K sources)) = Some (map sink (workers s))"
proof -
  have "map (tool_text env) (shards K sources) = map Some (map sink (workers s))"
  proof (rule nth_equalityI)
    show "length (map (tool_text env) (shards K sources)) = length (map Some (map sink (workers s)))"
      by (simp add: length_shards len)
  next
    fix k
    assume "k < length (map (tool_text env) (shards K sources))"
    then have k: "k < K"
      by (simp add: length_shards)
    with joined_workers [OF inv len ended k] len show
      "map (tool_text env) (shards K sources) ! k = map Some (map sink (workers s)) ! k"
      by (simp add: length_shards shards_nth)
  qed
  then show ?thesis
    by (simp only: those_map_Some)
qed

lemma merging_run:
  assumes run: "run K env sources acts (main_start (Some sources)) = Some s"
    and at: "pc s = Merging \<or> output_txt s \<noteq> None"
  shows "length (workers s) = K \<and> (\<forall>k<K. status (workers s ! k) \<noteq> None)
    \<and> (pc s = Merging \<or> pc s = Returned 0 \<and> output_txt s = Some (cat_sort (collate env) (map sink (workers s))))"
proof -
  from run have inv: "run_inv K env sources s"
    by (rule run_inv_reached)
  with at show ?thesis
    by (cases "pc s") (auto simp add: run_inv_def)
qed

lemma reported_run:
  assumes run: "run K env sources acts (main_start (Some sources)) = Some s"
    and out: "output_txt s = Some r"
  shows "pc s = Returned 0 \<and> r = cat_sort (collate env) (map sink (workers s))
    \<and> those (map (tool_text env) (shards K sources)) = Some (map sink (workers s))
    \<and> pipeline_report K env sources = Some r"
proof -
  from run have inv: "run_inv K env sources s"
    by (rule run_inv_reached)
  from out have "pc s = Merging \<or> output_txt s \<noteq> None"
    by simp
  with run have len: "length (workers s) = K" and ended: "\<forall>k<K. status (workers s ! k) \<noteq> None"
    and "pc s = Merging \<or> pc s = Returned 0 \<and> output_txt s = Some (cat_sort (collate env) (map sink (workers s)))"
    using merging_run by blast+
  moreover from inv out have "pc s \<noteq> Merging"
    by (auto simp add: run_inv_def)
  ultimately have pc: "pc s = Returned 0" and r: "r = cat_sort (collate env) (map sink (workers s))"
    using out by simp_all
  from inv len ended have "those (map (tool_text env) (shards K sources)) = Some (map sink (workers s))"
    by (rule joined_sinks)
  with pc r show ?thesis
    by (simp add: pipeline_report_def)
qed

lemma returned_run:
  assumes run: "run K env sources acts (main_start (Some sources)) = Some s"
    and ret: "pc s = Returned c"
  shows "c = 0 \<and> output_txt s \<noteq> None"
proof -
  from run have "run_inv K env sources s"
    by (rule run_inv_reached)
  with ret show ?thesis
    by (simp add: run_inv_def)
qed

lemma no_step_after_return:
  assumes "pc s = Returned c"
  shows "step K env sources a s = None"
  using assms by (cases a) (simp_all add: step_def main_step_def worker_step_def alive_def)

lemma run_after_return:
  assumes "pc s = Returned c" and "run K env sources acts s = Some s'"
  shows "s' = s"
  using assms by (cases acts) (simp_all add: no_step_after_return)

section \<open>A run that returns\<close>

lemma run_append:
  "run K env sources (as @ bs) s =
     (case run K env sources as s of None \<Rightarrow> None | Some s' \<Rightarrow> run K env sources bs s')"
  by (induction as arbitrary: s) (simp_all split: option.splits)

lemma run_Main: "run K env sources [Main] s = main_step K env sources s"
  by (simp add: step_def split: option.splits)

lemma spawn_phase:
  "i \<le> K \<Longrightarrow>
   run K env sources (replicate i Main) (main_start (Some sources))
     = Some \<lparr>pc = Spawning i, workers = map (spawn K sources) [0..<i], output_txt = None\<rparr>"
proof (induction i)
  case 0
  then show ?case by (simp add: main_start_def)
next
  case (Suc i)
  then have IH: "run K env sources (replicate i Main) (main_start (Some sources))
     = Some \<lparr>pc = Spawning i, workers = map (spawn K sources) [0..<i], output_txt = None\<rparr>"
    and i: "i < K"
    by simp_all
  have "replicate (Suc i) Main = replicate i Main @ [Main]"
    by (simp add: replicate_append_same)
  then show ?case
    using IH i by (simp only: run_append) (simp add: step_def main_step_def)
qed

lemma spawned:
  "run K env sources (replicate (K + 1) Main) (main_start (Some sources))
     = Some \<lparr>pc = Joining 0, workers = map (spawn K sources) [0..<K], output_txt = None\<rparr>"
proof -
  have "replicate (K + 1) Main = replicate K Main @ [Main]"
    by (simp add: replicate_append_same)
  then show ?thesis
    using spawn_phase [of K K env sources]
    by (simp only: run_append) (simp add: step_def main_step_def)
qed

lemma worker_runs:
  assumes "alive s" and "i < length (workers s)" and "status (workers s ! i) = None"
    and "tool_text env (pending (workers s ! i)) = Some t"
  shows "run K env sources (replicate (length (pending (workers s ! i)) + 1) (Worker i)) s
     = Some (s\<lparr>workers := (workers s)[i := (workers s ! i)
          \<lparr>pending := [], sink := sink (workers s ! i) @ t,
            status := Some (run_status env (vec (workers s ! i)))\<rparr>]\<rparr>)"
  using assms
proof (induction "pending (workers s ! i)" arbitrary: s t)
  case Nil
  then have e: "pending (workers s ! i) = []"
    by simp
  then have "(workers s ! i)\<lparr>pending := [], sink := sink (workers s ! i) @ [],
            status := Some (run_status env (vec (workers s ! i)))\<rparr>
      = (workers s ! i)\<lparr>status := Some (run_status env (vec (workers s ! i)))\<rparr>"
    by (cases "workers s ! i") simp
  moreover from Nil.prems e have "t = []"
    by simp
  moreover from Nil.prems e
  have "run K env sources (replicate (length (pending (workers s ! i)) + 1) (Worker i)) s
      = Some (s\<lparr>workers := (workers s)[i := (workers s ! i)
          \<lparr>status := Some (run_status env (vec (workers s ! i)))\<rparr>]\<rparr>)"
    by (simp add: step_def worker_step_def Let_def)
  ultimately show ?case
    by (simp only:)
next
  case (Cons src rest)
  let ?w = "workers s ! i"
  from Cons.hyps(2) have p: "pending ?w = src # rest"
    by simp
  from Cons.prems(4) p obtain tx ts where x: "handle_unit env src = Some tx"
    and xs: "tool_text env rest = Some ts" and t: "t = tx @ ts"
    by (auto split: option.splits)
  let ?s1 = "s\<lparr>workers := (workers s)[i := ?w\<lparr>pending := rest, sink := sink ?w @ tx\<rparr>]\<rparr>"
  have st: "step K env sources (Worker i) s = Some ?s1"
    using Cons.prems(1-3) p x by (simp add: step_def worker_step_def Let_def)
  have w1: "workers ?s1 ! i = ?w\<lparr>pending := rest, sink := sink ?w @ tx\<rparr>"
    using Cons.prems(2) by simp
  have "run K env sources (replicate (length (pending (workers ?s1 ! i)) + 1) (Worker i)) ?s1
     = Some (?s1\<lparr>workers := (workers ?s1)[i := (workers ?s1 ! i)
          \<lparr>pending := [], sink := sink (workers ?s1 ! i) @ ts,
            status := Some (run_status env (vec (workers ?s1 ! i)))\<rparr>]\<rparr>)"
  proof (rule Cons.hyps(1))
    show "rest = pending (workers ?s1 ! i)"
      using Cons.prems(2) by simp
    show "alive ?s1"
      using Cons.prems(1) by (simp add: alive_def)
    show "i < length (workers ?s1)"
      using Cons.prems(2) by simp
    show "status (workers ?s1 ! i) = None"
      using Cons.prems(2,3) by simp
    show "tool_text env (pending (workers ?s1 ! i)) = Some ts"
      using xs Cons.prems(2) by simp
  qed
  then show ?case
    using st p t Cons.prems(2) by simp
qed

lemma those_nth:
  "those xs = Some ys \<Longrightarrow> length ys = length xs \<and> (\<forall>i<length xs. xs ! i = Some (ys ! i))"
proof (induction xs arbitrary: ys)
  case Nil
  then show ?case by simp
next
  case (Cons x xs)
  from Cons.prems obtain y ys' where x: "x = Some y" and xs: "those xs = Some ys'"
    and ys: "ys = y # ys'"
    by (auto split: option.splits)
  from Cons.IH [OF xs] x ys show ?case
    by (auto simp add: nth_Cons split: nat.splits)
qed

lemma shard_texts:
  assumes "those (map (tool_text env) (shards K sources)) = Some texts"
  shows "length texts = K"
    and "i < K \<Longrightarrow> tool_text env (shard K sources i) = Some (texts ! i)"
proof -
  from those_nth [OF assms] have len: "length texts = K"
    and nth: "\<forall>i<K. map (tool_text env) (shards K sources) ! i = Some (texts ! i)"
    by (simp_all add: length_shards)
  from len show "length texts = K" .
  assume "i < K"
  with nth show "tool_text env (shard K sources i) = Some (texts ! i)"
    by (simp add: length_shards shards_nth)
qed

lemma workers_phase:
  assumes texts: "those (map (tool_text env) (shards K sources)) = Some texts"
  shows "n \<le> K \<Longrightarrow>
    run K env sources (concat (map (worker_actions K sources) [0..<n]))
      \<lparr>pc = Joining 0, workers = map (spawn K sources) [0..<K], output_txt = None\<rparr>
    = Some \<lparr>pc = Joining 0,
         workers = map (ended_worker env K sources texts) [0..<n] @ map (spawn K sources) [n..<K],
         output_txt = None\<rparr>"
proof (induction n)
  case 0
  then show ?case by simp
next
  case (Suc n)
  then have n: "n < K"
    by simp
  let ?ended = "map (ended_worker env K sources texts) [0..<n]"
  let ?s = "\<lparr>pc = Joining 0, workers = ?ended @ map (spawn K sources) [n..<K], output_txt = None\<rparr>"
  from Suc have IH: "run K env sources (concat (map (worker_actions K sources) [0..<n]))
      \<lparr>pc = Joining 0, workers = map (spawn K sources) [0..<K], output_txt = None\<rparr> = Some ?s"
    by simp
  from n have upt: "[n..<K] = n # [Suc n..<K]"
    by (rule upt_conv_Cons)
  have w: "workers ?s ! n = spawn K sources n"
    by (simp add: upt nth_append)
  have al: "alive ?s"
    by (simp add: alive_def)
  have len: "n < length (workers ?s)"
    using n by simp
  have st: "status (workers ?s ! n) = None"
    by (simp only: w) (simp add: spawn_def)
  have tt: "tool_text env (pending (workers ?s ! n)) = Some (texts ! n)"
    using shard_texts(2) [OF texts n] by (simp only: w) (simp add: spawn_def)
  have acts: "worker_actions K sources n
      = replicate (length (pending (workers ?s ! n)) + 1) (Worker n)"
    by (simp only: w) (simp add: spawn_def worker_actions_def)
  have upd: "(spawn K sources n)\<lparr>pending := [], sink := sink (spawn K sources n) @ texts ! n,
            status := Some (run_status env (vec (spawn K sources n)))\<rparr>
      = ended_worker env K sources texts n"
    by (simp add: spawn_def ended_worker_def)
  have "run K env sources (worker_actions K sources n) ?s
      = Some (?s\<lparr>workers := (workers ?s)[n := ended_worker env K sources texts n]\<rparr>)"
    unfolding acts using worker_runs [OF al len st tt, of K sources]
    by (simp only: w upd)
  moreover have "(workers ?s)[n := ended_worker env K sources texts n]
      = map (ended_worker env K sources texts) [0..<Suc n] @ map (spawn K sources) [Suc n..<K]"
    by (simp add: upt list_update_append)
  ultimately have "run K env sources (worker_actions K sources n) ?s
      = Some \<lparr>pc = Joining 0,
         workers = map (ended_worker env K sources texts) [0..<Suc n] @ map (spawn K sources) [Suc n..<K],
         output_txt = None\<rparr>"
    by simp
  moreover have "concat (map (worker_actions K sources) [0..<Suc n])
      = concat (map (worker_actions K sources) [0..<n]) @ worker_actions K sources n"
    by simp
  ultimately show ?case
    using IH by (simp only: run_append option.case)
qed

lemma join_phase:
  assumes "length (workers s) = K" and "\<forall>k<K. status (workers s ! k) \<noteq> None"
  shows "m \<le> K \<Longrightarrow>
    run K env sources (replicate m Main) (s\<lparr>pc := Joining (K - m)\<rparr>) = Some (s\<lparr>pc := Joining K\<rparr>)"
proof (induction m)
  case 0
  then show ?case by simp
next
  case (Suc m)
  then have m: "K - Suc m < K" and IH: "run K env sources (replicate m Main) (s\<lparr>pc := Joining (K - m)\<rparr>)
      = Some (s\<lparr>pc := Joining K\<rparr>)"
    by simp_all
  from m assms(2) obtain st where "status (workers s ! (K - Suc m)) = Some st"
    by auto
  with m assms(1) Suc.prems
  have "step K env sources Main (s\<lparr>pc := Joining (K - Suc m)\<rparr>) = Some (s\<lparr>pc := Joining (K - m)\<rparr>)"
    by (simp add: step_def main_step_def Suc_diff_Suc)
  with IH show ?case
    by simp
qed

lemma sequential_run:
  assumes texts: "those (map (tool_text env) (shards K sources)) = Some texts"
  shows "run K env sources (sequential_schedule K sources) (main_start (Some sources))
    = Some \<lparr>pc = Returned 0, workers = map (ended_worker env K sources texts) [0..<K],
          output_txt = Some (cat_sort (collate env) texts)\<rparr>"
proof -
  let ?ws = "map (ended_worker env K sources texts) [0..<K]"
  let ?s = "\<lparr>pc = Joining 0, workers = ?ws, output_txt = None\<rparr>"
  have len: "length (workers ?s) = K"
    by simp
  have ended: "\<forall>k<K. status (workers ?s ! k) \<noteq> None"
    by (simp add: ended_worker_def)
  have sinks: "map sink ?ws = texts"
  proof (rule nth_equalityI)
    show "length (map sink ?ws) = length texts"
      using shard_texts(1) [OF texts] by simp
  next
    fix i
    assume "i < length (map sink ?ws)"
    then show "map sink ?ws ! i = texts ! i"
      by (simp add: ended_worker_def)
  qed
  have one: "run K env sources (replicate (K + 1) Main) (main_start (Some sources))
      = Some \<lparr>pc = Joining 0, workers = map (spawn K sources) [0..<K], output_txt = None\<rparr>"
    by (rule spawned)
  have two: "run K env sources (concat (map (worker_actions K sources) [0..<K]))
      \<lparr>pc = Joining 0, workers = map (spawn K sources) [0..<K], output_txt = None\<rparr> = Some ?s"
    using workers_phase [OF texts, of K] by simp
  have "run K env sources (replicate K Main) (?s\<lparr>pc := Joining (K - K)\<rparr>) = Some (?s\<lparr>pc := Joining K\<rparr>)"
    using len ended by (rule join_phase) simp
  then have three: "run K env sources (replicate K Main) ?s
      = Some \<lparr>pc = Joining K, workers = ?ws, output_txt = None\<rparr>"
    by simp
  have four: "run K env sources [Main, Main] \<lparr>pc = Joining K, workers = ?ws, output_txt = None\<rparr>
      = Some \<lparr>pc = Returned 0, workers = ?ws, output_txt = Some (cat_sort (collate env) texts)\<rparr>"
    using sinks by (simp add: step_def main_step_def del: map_map)
  have "replicate (K + 2) Main = replicate K Main @ replicate 2 Main"
    by (simp only: replicate_add)
  then have "replicate (K + 2) Main = replicate K Main @ [Main, Main]"
    by (simp add: numeral_2_eq_2)
  then have "sequential_schedule K sources
      = replicate (K + 1) Main @ concat (map (worker_actions K sources) [0..<K])
        @ replicate K Main @ [Main, Main]"
    by (simp only: sequential_schedule_def)
  then show ?thesis
    using one two three four by (simp only: run_append option.case)
qed

lemma handle_unit_short: "length src < 2 ^ 31 \<Longrightarrow> handle_unit env src \<noteq> None"
  by (simp add: handle_unit_def MyAstConsumer_short)

lemma tool_text_short: "\<forall>src\<in>set srcs. length src < 2 ^ 31 \<Longrightarrow> tool_text env srcs \<noteq> None"
proof (induction srcs)
  case Nil
  then show ?case by simp
next
  case (Cons src srcs)
  then have "handle_unit env src \<noteq> None" and "tool_text env srcs \<noteq> None"
    by (simp_all add: handle_unit_short)
  then show ?case
    by auto
qed

lemma those_defined: "\<forall>x\<in>set xs. x \<noteq> None \<Longrightarrow> \<exists>ys. those xs = Some ys"
  by (induction xs) auto

lemma set_shard: "set (shard K sources i) \<subseteq> set sources"
  unfolding shard_def vec_range_def
  by (meson set_drop_subset set_take_subset subset_trans)

lemma shards_texts_exist:
  assumes "\<forall>src\<in>set sources. length src < 2 ^ 31"
  shows "\<exists>texts. those (map (tool_text env) (shards K sources)) = Some texts"
proof (rule those_defined, rule ballI)
  fix x
  assume "x \<in> set (map (tool_text env) (shards K sources))"
  then obtain i where "x = tool_text env (shard K sources i)"
    by (auto simp add: shards_def)
  moreover have "\<forall>src\<in>set (shard K sources i). length src < 2 ^ 31"
    using assms set_shard [of K sources i] by blast
  ultimately show "x \<noteq> None"
    by (simp add: tool_text_short)
qed

lemma returning_run_exists:
  assumes "\<forall>src\<in>set sources. length src < 2 ^ 31"
  shows "\<exists>s r. run K env sources (sequential_schedule K sources) (main_start (Some sources)) = Some s
    \<and> pc s = Returned 0 \<and> output_txt s = Some r \<and> pipeline_report K env sources = Some r"
proof -
  from shards_texts_exist [OF assms] obtain texts
    where texts: "those (map (tool_text env) (shards K sources)) = Some texts"
    by blast
  from sequential_run [OF texts] texts show ?thesis
    by (simp add: pipeline_report_def)
qed

section \<open>Evaluation of the examples\<close>

lemma example_names:
  "MyAstConsumer ''z.cpp'' = Some ''z.cpp''"
  "MyAstConsumer ''src/m.cpp'' = Some ''m.cpp''"
  "MyAstConsumer ''a.cpp'' = Some ''a.cpp''"
  "MyAstConsumer ''dir/k.cpp'' = Some ''k.cpp''"
  "MyAstConsumer ''b.cpp'' = Some ''b.cpp''"
  by (simp_all add: MyAstConsumer_short after_last_slash_def)

lemmas run_eval =
  kThreadsCount_def main_start_def step_def main_step_def worker_step_def alive_def spawn_def
  shard_def vec_range_def begin_index_def end_index_def chunk_size_def
  handle_unit_def flushToFile_def record_line_def std_sort_names_def sort_by_def
  tolower_def char_to_int_def cat_sort_def unix_sort_def unlines_def newline_def Let_def

lemma example_run_a:
  "map_option (\<lambda>s. (pc s, map status (workers s), map pending (workers s), output_txt s))
     (run kThreadsCount example_env example_sources schedule_a (main_start (Some example_sources)))
   = Some (Merging, [Some 0, Some 0, Some 0, Some 0], [[], [], [], []], None)"
  by (simp add: example_env_def example_sources_def schedule_a_def run_eval example_names)

lemma example_run_a_main:
  "map_option (\<lambda>s. (pc s, output_txt s))
     (run kThreadsCount example_env example_sources (schedule_a @ [Main])
        (main_start (Some example_sources)))
   = Some (Returned 0, Some example_report)"
  by (simp add: example_env_def example_sources_def schedule_a_def example_report_def
      run_eval example_names)

lemma example_run_b_main:
  "map_option (\<lambda>s. (pc s, output_txt s))
     (run kThreadsCount example_env example_sources (schedule_b @ [Main])
        (main_start (Some example_sources)))
   = Some (Returned 0, Some example_report)"
  by (simp add: example_env_def example_sources_def schedule_b_def example_report_def
      run_eval example_names)

section \<open>Theorems on the runs of \<open>main\<close>\<close>

text \<open>
  C9. In every run, when the main thread is at the merge command, and whenever
  \<open>output.txt\<close> has been written, all \<open>K\<close> workers have been spawned and have ended (the
  join loop has passed each of them), none has a source left, and the file of every worker
  holds the whole text of its shard: the merge reads no file that is still being written.
\<close>

theorem merge_after_join:
  assumes "run K env sources acts (main_start (Some sources)) = Some s"
    and "pc s = Merging \<or> output_txt s \<noteq> None"
  shows "length (workers s) = K
    \<and> (\<forall>k<K. status (workers s ! k) \<noteq> None
          \<and> pending (workers s ! k) = []
          \<and> tool_text env (shard K sources k) = Some (sink (workers s ! k)))
    \<and> (\<forall>r. output_txt s = Some r \<longrightarrow> r = cat_sort (collate env) (map sink (workers s)))"
proof -
  from assms(1) have inv: "run_inv K env sources s"
    by (rule run_inv_reached)
  from merging_run [OF assms] have len: "length (workers s) = K"
    and ended: "\<forall>k<K. status (workers s ! k) \<noteq> None"
    and at: "pc s = Merging \<or> pc s = Returned 0 \<and> output_txt s = Some (cat_sort (collate env) (map sink (workers s)))"
    by simp_all
  from inv at have "\<forall>r. output_txt s = Some r \<longrightarrow> r = cat_sort (collate env) (map sink (workers s))"
    by (auto simp add: run_inv_def)
  with len ended joined_workers [OF inv len ended] show ?thesis
    by simp
qed

theorem merge_after_join_witness:
  "map_option
     (\<lambda>s. (pc s, map status (workers s), map pending (workers s), length (workers s),
            tool_text example_env (shard kThreadsCount example_sources 3) = Some (sink (workers s ! 3))))
     (run kThreadsCount example_env example_sources schedule_a (main_start (Some example_sources)))
   = Some (Merging, [Some 0, Some 0, Some 0, Some 0], [[], [], [], []], kThreadsCount, True)"
proof -
  from example_run_a obtain s
    where run: "run kThreadsCount example_env example_sources schedule_a (main_start (Some example_sources)) = Some s"
      and at: "pc s = Merging"
      and rest: "map status (workers s) = [Some 0, Some 0, Some 0, Some 0]"
        "map pending (workers s) = [[], [], [], []]"
    by auto
  from at have at': "pc s = Merging \<or> output_txt s \<noteq> None"
    by simp
  have "(3::nat) < kThreadsCount"
    by (simp add: kThreadsCount_def)
  with merge_after_join [OF run at'] have "length (workers s) = kThreadsCount"
    and "tool_text example_env (shard kThreadsCount example_sources 3) = Some (sink (workers s ! 3))"
    by simp_all
  with run at rest show ?thesis
    by simp
qed

text \<open>
  C3. For a fixed source list, fixed results of the tool and a fixed worker count, any two
  runs that return from \<open>main\<close> have written the same \<open>output.txt\<close>, whatever the
  order in which the threads took their steps: it is the report computed from the inputs
  alone.  When every path is shorter than \<open>2^31\<close> bytes, so that no constructor throws,
  there is a run that returns.
\<close>

theorem report_deterministic:
  assumes "run K env sources acts1 (main_start (Some sources)) = Some s1"
    and "run K env sources acts2 (main_start (Some sources)) = Some s2"
    and "pc s1 = Returned c1" and "pc s2 = Returned c2"
  shows "output_txt s1 = output_txt s2
    \<and> output_txt s1 = pipeline_report K env sources
    \<and> (\<exists>r. output_txt s1 = Some r)
    \<and> ((\<forall>src\<in>set sources. length src < 2 ^ 31) \<longrightarrow>
         (\<exists>acts s. run K env sources acts (main_start (Some sources)) = Some s
            \<and> pc s = Returned 0))"
proof -
  have "\<exists>acts s. run K env sources acts (main_start (Some sources)) = Some s \<and> pc s = Returned 0"
    if "\<forall>src\<in>set sources. length src < 2 ^ 31"
    using returning_run_exists [OF that, of K env] by blast
  note ex = this
  from returned_run [OF assms(1) assms(3)] obtain r1 where r1: "output_txt s1 = Some r1"
    by auto
  from returned_run [OF assms(2) assms(4)] obtain r2 where r2: "output_txt s2 = Some r2"
    by auto
  from reported_run [OF assms(1) r1] have "pipeline_report K env sources = Some r1"
    by simp
  moreover from reported_run [OF assms(2) r2] have "pipeline_report K env sources = Some r2"
    by simp
  ultimately show ?thesis
    using r1 r2 ex by simp
qed

theorem report_deterministic_witness:
  "map_option (\<lambda>s. (pc s, output_txt s))
     (run kThreadsCount example_env example_sources (schedule_a @ [Main])
        (main_start (Some example_sources)))
   = Some (Returned 0, Some example_report)
   \<and> map_option (\<lambda>s. (pc s, output_txt s))
     (run kThreadsCount example_env example_sources (schedule_b @ [Main])
        (main_start (Some example_sources)))
   = Some (Returned 0, Some example_report)
   \<and> pipeline_report kThreadsCount example_env example_sources = Some example_report"
proof -
  from example_run_a_main obtain s1
    where run1: "run kThreadsCount example_env example_sources (schedule_a @ [Main])
        (main_start (Some example_sources)) = Some s1"
      and pc1: "pc s1 = Returned 0" and out1: "output_txt s1 = Some example_report"
    by auto
  from example_run_b_main obtain s2
    where run2: "run kThreadsCount example_env example_sources (schedule_b @ [Main])
        (main_start (Some example_sources)) = Some s2"
      and pc2: "pc s2 = Returned 0"
    by auto
  from report_deterministic [OF run1 run2 pc1 pc2]
  have "output_txt s1 = pipeline_report kThreadsCount example_env example_sources"
    by (elim conjE)
  with out1 have "pipeline_report kThreadsCount example_env example_sources = Some example_report"
    by simp
  with example_run_a_main example_run_b_main show ?thesis
    by simp
qed

text \<open>
  C2, as stated, fails: with a tool that reports failure (status 1) for the shard of
  worker 3, the run goes through the joins and the merge and \<open>main\<close> returns 0.
\<close>

theorem exit_status_counterexample:
  "map_option (\<lambda>s. (pc s, map status (workers s), output_txt s))
     (run kThreadsCount failing_env [''a.cpp'', ''b.cpp'']
        [Main, Main, Main, Main, Main, Worker 3, Worker 3, Worker 3, Worker 0, Worker 1, Worker 2,
         Main, Main, Main, Main, Main, Main]
        (main_start (Some [''a.cpp'', ''b.cpp''])))
   = Some (Returned 0, [Some 0, Some 0, Some 0, Some 1], Some [])"
proof -
  have "MyAstConsumer ''a.cpp'' = Some ''a.cpp''" and "MyAstConsumer ''b.cpp'' = Some ''b.cpp''"
    by (simp_all add: MyAstConsumer_short)
  then show ?thesis
    by (simp add: failing_env_def run_eval)
qed

text \<open>
  C2, amended.  \<open>main\<close> returns 1 only when the options parser cannot be created, before
  any worker is spawned and without a report; every run that spawns workers and returns,
  returns 0 after the merge has written the report, whatever status the tool reported in
  any worker: the status is printed by the worker and used nowhere else.  When every path
  is shorter than \<open>2^31\<close> bytes, so that no constructor throws, there is such a run.
\<close>

theorem exit_status:
  assumes "run K env sources acts (main_start parsed) = Some s" and "pc s = Returned c"
  shows "(parsed = None \<longrightarrow> c = 1 \<and> workers s = [] \<and> output_txt s = None)
    \<and> (parsed = Some sources \<longrightarrow> c = 0 \<and> output_txt s = pipeline_report K env sources
          \<and> (\<exists>r. output_txt s = Some r))
    \<and> ((\<forall>src\<in>set sources. length src < 2 ^ 31) \<longrightarrow>
         (\<exists>acts' s'. run K env sources acts' (main_start (Some sources)) = Some s'
            \<and> pc s' = Returned 0))"
proof -
  have ex: "\<exists>acts' s'. run K env sources acts' (main_start (Some sources)) = Some s' \<and> pc s' = Returned 0"
    if "\<forall>src\<in>set sources. length src < 2 ^ 31"
    using returning_run_exists [OF that, of K env] by blast
  have none: "c = 1 \<and> workers s = [] \<and> output_txt s = None" if "parsed = None"
  proof -
    from that have start: "pc (main_start parsed) = Returned 1"
      by (simp add: main_start_def)
    from start assms(1) have "s = main_start parsed"
      by (rule run_after_return)
    with that assms(2) show ?thesis
      by (simp add: main_start_def)
  qed
  have some: "c = 0 \<and> output_txt s = pipeline_report K env sources \<and> (\<exists>r. output_txt s = Some r)"
    if "parsed = Some sources"
  proof -
    from that assms(1) have run: "run K env sources acts (main_start (Some sources)) = Some s"
      by simp
    from returned_run [OF run assms(2)] obtain r where c: "c = 0" and r: "output_txt s = Some r"
      by auto
    from reported_run [OF run r] r c show ?thesis
      by simp
  qed
  from none some ex show ?thesis
    by blast
qed

theorem exit_status_witness:
  "map_option (\<lambda>s. (pc s, map status (workers s)))
     (run kThreadsCount failing_env example_sources (schedule_a @ [Main])
        (main_start (Some example_sources)))
   = Some (Returned 0, [Some 1, Some 1, Some 1, Some 1])
   \<and> map_option (\<lambda>s. (pc s, workers s, output_txt s))
       (run kThreadsCount failing_env example_sources [] (main_start None))
   = Some (Returned 1, [], None)"
proof -
  have e: "map_option (\<lambda>s. (pc s, map status (workers s)))
     (run kThreadsCount failing_env example_sources (schedule_a @ [Main])
        (main_start (Some example_sources)))
   = Some (Returned 0, [Some 1, Some 1, Some 1, Some 1])"
    by (simp add: failing_env_def example_sources_def schedule_a_def run_eval example_names)
  then obtain s c
    where run: "run kThreadsCount failing_env example_sources (schedule_a @ [Main])
        (main_start (Some example_sources)) = Some s"
      and pc: "pc s = Returned c"
    by auto
  have "Some example_sources = Some example_sources \<longrightarrow> c = 0"
    using exit_status [OF run pc] by blast
  then have c: "c = 0"
    by simp
  have run0: "run kThreadsCount failing_env example_sources [] (main_start None) = Some (main_start None)"
    and pc0: "pc (main_start None) = Returned 1"
    by (simp_all add: main_start_def)
  from exit_status [OF run0 pc0]
  have "workers (main_start None) = [] \<and> output_txt (main_start None) = None"
    by simp
  with e c run0 pc0 show ?thesis
    by simp
qed

section \<open>The text of the report\<close>






lemma mset_split_lines_cat_sort:
  "mset (split_lines (cat_sort lt files)) = mset (split_lines (concat files))"
  by (simp add: cat_sort_def split_lines_unix_sort mset_sort_by)

lemma sorted_split_lines_cat_sort:
  assumes "strict_weak_order lt"
  shows "sorted_wrt (\<lambda>a b. \<not> lt b a) (split_lines (cat_sort lt files))"
proof -
  from assms have "\<And>a b. lt a b \<Longrightarrow> \<not> lt b a"
    and "\<And>a b c. \<not> lt b a \<Longrightarrow> \<not> lt c b \<Longrightarrow> \<not> lt c a"
    unfolding strict_weak_order_def by blast+
  then show ?thesis
    unfolding cat_sort_def split_lines_unix_sort by (rule sorted_sort_by)
qed

lemma strict_weak_order_bytes: "strict_weak_order bytes_less"
  unfolding strict_weak_order_def using bytes_less_asym bytes_less_ntrans by blast

lemma strict_weak_order_dictionary: "strict_weak_order dictionary_less"
proof -
  let ?L = "\<lambda>a b. ord_class.lexordp (fold_case a) (fold_case b)"
  have irr: "\<not> ?L a a" for a
    by (rule lexordp_irreflexive') 
  have asymL: "?L a b \<Longrightarrow> \<not> ?L b a" for a b
    using lexordp_antisym by blast
  have transL: "?L a b \<Longrightarrow> ?L b c \<Longrightarrow> ?L a c" for a b c
    by (rule lexordp_trans)
  have linL: "?L a b \<or> fold_case a = fold_case b \<or> ?L b a" for a b
    by (rule lexordp_linear)
  have asym: "\<not> dictionary_less b a" if "dictionary_less a b" for a b
    using that irr [of a] irr [of b] asymL [of a b] bytes_less_asym [of a b]
    by (auto simp add: dictionary_less_def)
  have ntrans: "\<not> dictionary_less c a" if ba: "\<not> dictionary_less b a" and cb: "\<not> dictionary_less c b"
    for a b c
  proof
    assume ca: "dictionary_less c a"
    show False
    proof (cases "fold_case a = fold_case b")
      case True
      with ba have nb: "\<not> bytes_less b a"
        by (simp add: dictionary_less_def)
      show False
      proof (cases "fold_case c = fold_case b")
        case True
        with cb have "\<not> bytes_less c b"
          by (simp add: dictionary_less_def)
        with nb have "\<not> bytes_less c a"
          by (rule bytes_less_ntrans)
        with ca True \<open>fold_case a = fold_case b\<close> irr [of a] show False
          by (simp add: dictionary_less_def)
      next
        case False
        with cb linL [of c b] have "?L b c"
          by (auto simp add: dictionary_less_def)
        with ca \<open>fold_case a = fold_case b\<close> asymL [of b c] show False
          by (auto simp add: dictionary_less_def)
      qed
    next
      case False
      with ba linL [of a b] have ab: "?L a b"
        by (auto simp add: dictionary_less_def)
      from cb linL [of c b] have "?L b c \<or> fold_case c = fold_case b"
        by (auto simp add: dictionary_less_def)
      then show False
      proof
        assume "?L b c"
        with ab have "?L a c"
          by (rule transL)
        with ca asymL [of a c] irr [of a] show False
          by (auto simp add: dictionary_less_def)
      next
        assume "fold_case c = fold_case b"
        with ab ca asymL [of a b] False show False
          by (auto simp add: dictionary_less_def)
      qed
    qed
  qed
  from asym ntrans show ?thesis
    unfolding strict_weak_order_def by blast
qed

section \<open>Theorems on the report\<close>

text \<open>
  C1, as stated, fails: the order of the lines is that of the \<open>sort\<close> utility in the
  locale of the environment.  Under a collation that compares letters without their case
  first, the report for the units \<open>B.cpp\<close> and \<open>a.cpp\<close> has the line \<open>a.cpp\<close>
  before the line \<open>B.cpp\<close>, which is not the byte-wise order (\<open>'B'\<close> is byte 66,
  \<open>'a'\<close> is byte 97).
\<close>

theorem report_sorted_counterexample:
  "map_option output_txt
     (run kThreadsCount dictionary_env [''B.cpp'', ''a.cpp'']
        [Main, Main, Main, Main, Main, Worker 0, Worker 1, Worker 2, Worker 3, Worker 3, Worker 3,
         Main, Main, Main, Main, Main, Main]
        (main_start (Some [''B.cpp'', ''a.cpp''])))
   = Some (Some (''a.cpp'' @ [newline] @ ''B.cpp'' @ [newline]))
   \<and> split_lines (''a.cpp'' @ [newline] @ ''B.cpp'' @ [newline]) = [''a.cpp'', ''B.cpp'']
   \<and> bytes_less ''B.cpp'' ''a.cpp''
   \<and> \<not> sorted_wrt bytes_le [''a.cpp'', ''B.cpp'']"
proof -
  have "MyAstConsumer ''a.cpp'' = Some ''a.cpp''" and "MyAstConsumer ''B.cpp'' = Some ''B.cpp''"
    by (simp_all add: MyAstConsumer_short)
  then have "map_option output_txt
     (run kThreadsCount dictionary_env [''B.cpp'', ''a.cpp'']
        [Main, Main, Main, Main, Main, Worker 0, Worker 1, Worker 2, Worker 3, Worker 3, Worker 3,
         Main, Main, Main, Main, Main, Main]
        (main_start (Some [''B.cpp'', ''a.cpp''])))
   = Some (Some (''a.cpp'' @ [newline] @ ''B.cpp'' @ [newline]))"
    by (simp add: dictionary_env_def dictionary_less_def fold_case_def run_eval)
  moreover have "split_lines (''a.cpp'' @ [newline] @ ''B.cpp'' @ [newline]) = [''a.cpp'', ''B.cpp'']"
    by (simp add: newline_def)
  moreover have "bytes_less ''B.cpp'' ''a.cpp''"
    by simp
  ultimately show ?thesis
    by (simp add: bytes_le_def)
qed

text \<open>
  C1, amended.  In every run the lines of \<open>output.txt\<close> are in the order of the
  collation under which the \<open>sort\<close> utility runs (a strict weak order): no line is followed
  by a line that the collation puts strictly before it.  In the POSIX locale this is the
  byte-wise lexicographic order of the whole line.  The lines are those of the workers'
  files: the files hold the texts of the shards as the workers wrote them, in shard order,
  and the one sort of the merge command puts all lines of all files in order.
\<close>

theorem report_sorted:
  assumes "run K env sources acts (main_start (Some sources)) = Some s"
    and "output_txt s = Some r"
    and "strict_weak_order (collate env)"
  shows "sorted_wrt (\<lambda>a b. \<not> collate env b a) (split_lines r)
    \<and> (collate env = bytes_less \<longrightarrow> sorted_wrt bytes_le (split_lines r))
    \<and> (\<forall>a b. bytes_le a b = ord_class.lexordp_eq (map of_char a :: nat list) (map of_char b))
    \<and> r = unix_sort (collate env) (concat (map sink (workers s)))
    \<and> mset (split_lines r) = mset (split_lines (concat (map sink (workers s))))
    \<and> those (map (tool_text env) (shards K sources)) = Some (map sink (workers s))"
proof -
  from reported_run [OF assms(1,2)] have r: "r = cat_sort (collate env) (map sink (workers s))"
    and sinks: "those (map (tool_text env) (shards K sources)) = Some (map sink (workers s))"
    by simp_all
  have sorted: "sorted_wrt (\<lambda>a b. \<not> collate env b a) (split_lines r)"
    unfolding r using assms(3) by (rule sorted_split_lines_cat_sort)
  have "sorted_wrt bytes_le (split_lines r)" if "collate env = bytes_less"
  proof -
    have "bytes_le = (\<lambda>a b. \<not> bytes_less b a)"
      by (intro ext) (simp add: bytes_le_def)
    with sorted that show ?thesis
      by simp
  qed
  moreover have "mset (split_lines r) = mset (split_lines (concat (map sink (workers s))))"
    unfolding r by (rule mset_split_lines_cat_sort)
  moreover have "r = unix_sort (collate env) (concat (map sink (workers s)))"
    by (simp add: r cat_sort_def)
  ultimately show ?thesis
    using sorted sinks bytes_le_lexordp_eq by simp
qed

theorem report_sorted_witness:
  "map_option (\<lambda>s. (output_txt s, map sink (workers s)))
     (run kThreadsCount example_env example_sources (schedule_b @ [Main])
        (main_start (Some example_sources)))
   = Some (Some example_report,
       [''z.cpp X y'' @ [newline], ''m.cpp'' @ [newline], ''a.cpp q'' @ [newline],
        ''k.cpp ba Bb'' @ [newline] @ ''b.cpp v'' @ [newline]])
   \<and> collate example_env = bytes_less
   \<and> split_lines example_report = [''a.cpp q'', ''b.cpp v'', ''k.cpp ba Bb'', ''m.cpp'', ''z.cpp X y'']
   \<and> sorted_wrt bytes_le [''a.cpp q'', ''b.cpp v'', ''k.cpp ba Bb'', ''m.cpp'', ''z.cpp X y'']"
proof -
  have e: "map_option (\<lambda>s. (output_txt s, map sink (workers s)))
     (run kThreadsCount example_env example_sources (schedule_b @ [Main])
        (main_start (Some example_sources)))
   = Some (Some example_report,
       [''z.cpp X y'' @ [newline], ''m.cpp'' @ [newline], ''a.cpp q'' @ [newline],
        ''k.cpp ba Bb'' @ [newline] @ ''b.cpp v'' @ [newline]])"
    by (simp add: example_env_def example_sources_def schedule_b_def example_report_def
      run_eval example_names)
  then obtain s
    where run: "run kThreadsCount example_env example_sources (schedule_b @ [Main])
        (main_start (Some example_sources)) = Some s"
      and out: "output_txt s = Some example_report"
    by auto
  have c: "collate example_env = bytes_less"
    by (simp add: example_env_def)
  have swo: "strict_weak_order (collate example_env)"
    unfolding c by (rule strict_weak_order_bytes)
  have l: "split_lines example_report = [''a.cpp q'', ''b.cpp v'', ''k.cpp ba Bb'', ''m.cpp'', ''z.cpp X y'']"
    by (simp add: example_report_def newline_def)
  from report_sorted [OF run out swo] c
  have "sorted_wrt bytes_le (split_lines example_report)"
    by blast
  with e c l show ?thesis
    by simp
qed




end
